theory Spec2Isabelle
  imports Main "HOL-Library.Word"
begin

unbundle bit_operations_syntax

section \<open>Data model of ring.h\<close>

text \<open>
  Every counter and size of the ring is a \<^verbatim>\<open>uint32_t\<close> (or \<^verbatim>\<open>unsigned\<close>): a 32-bit word
  whose arithmetic wraps. A handle (\<^verbatim>\<open>void *\<close>) is a value of an arbitrary type \<open>'a\<close>, since
  the code never looks into it.
\<close>

type_synonym u32 = "32 word"

definition RING_F_SP :: u32 where "RING_F_SP = 0x01"
definition RING_F_SC :: u32 where "RING_F_SC = 0x02"

text \<open>The behaviour argument is a C \<^verbatim>\<open>int\<close> that the code only compares with \<open>RING_B_FIXED\<close>.\<close>

definition RING_B_FIXED :: int where "RING_B_FIXED = 0"
definition RING_B_VARIABLE :: int where "RING_B_VARIABLE = 1"

definition RING_SIZE_MASK :: u32 where "RING_SIZE_MASK = 0x0fffffff"

text \<open>The macro \<^verbatim>\<open>POWEROF2(x)\<close>: \<^verbatim>\<open>((((x)-1) & (x)) == 0)\<close>, on an \<^verbatim>\<open>unsigned\<close> argument.\<close>

definition POWEROF2 :: "u32 \<Rightarrow> bool" where
  "POWEROF2 x \<longleftrightarrow> ((x - 1) AND x) = 0"

text \<open>
  \<^verbatim>\<open>struct ring\<close>: the producer block, the consumer block and the slot array
  \<^verbatim>\<open>void *ring[0]\<close>, which is the memory the caller allocated behind the header. The
  slot array is a list; its length is the number of slots that were allocated.
\<close>

record 'a ring =
  prod_sp :: u32
  prod_size :: u32
  prod_mask :: u32
  prod_head :: u32
  prod_tail :: u32
  cons_sc :: u32
  cons_size :: u32
  cons_mask :: u32
  cons_head :: u32
  cons_tail :: u32
  slots :: "'a list"

text \<open>
  What can go wrong in the C program and is no return value: an array access outside the
  allocated slots or outside the caller's buffer (undefined behaviour), and a spin loop
  that never ends.
\<close>

datatype fault = OutOfBounds | NeverReturns

section \<open>Sizing and initialisation\<close>

text \<open>
  \<^verbatim>\<open>ring_memsize\<close>. The two \<^verbatim>\<open>sizeof\<close> values depend on the platform and are parameters.
  The sum is computed in \<^verbatim>\<open>size_t\<close> and stored in an \<^verbatim>\<open>unsigned\<close>, which keeps it
  modulo \<open>2 ^ 32\<close>.
\<close>

definition ring_memsize :: "nat \<Rightarrow> nat \<Rightarrow> u32 \<Rightarrow> u32" where
  "ring_memsize sizeof_ring sizeof_ptr count =
     (if (\<not> POWEROF2 count) \<or> (count > RING_SIZE_MASK) then 0
      else word_of_nat (sizeof_ring + unat count * sizeof_ptr))"

text \<open>
  \<^verbatim>\<open>ring_init\<close> zeroes the header and writes the fields; the slots behind the header keep
  whatever the memory held.
\<close>

definition ring_init :: "'a ring \<Rightarrow> u32 \<Rightarrow> u32 \<Rightarrow> 'a ring" where
  "ring_init r count flags =
     r\<lparr> prod_sp := (if flags AND RING_F_SP \<noteq> 0 then 1 else 0),
        cons_sc := (if flags AND RING_F_SC \<noteq> 0 then 1 else 0),
        prod_size := count, cons_size := count,
        prod_mask := count - 1, cons_mask := count - 1,
        prod_head := 0, cons_head := 0,
        prod_tail := 0, cons_tail := 0 \<rparr>"

section \<open>Slot transfer\<close>

text \<open>The C statement \<^verbatim>\<open>dst[d] = src[s]\<close> on two arrays of known extent.\<close>

definition assign :: "'a list \<Rightarrow> nat \<Rightarrow> 'a list \<Rightarrow> nat \<Rightarrow> fault + 'a list" where
  "assign dst d src s =
     (if d < length dst \<and> s < length src then Inr (dst[d := src ! s]) else Inl OutOfBounds)"

text \<open>
  The macros \<^verbatim>\<open>PUSH_PTRS\<close> and \<^verbatim>\<open>POP_PTRS\<close> are the same text up to the direction of the
  assignment (\<^verbatim>\<open>r->ring[idx] = objs[i]\<close> against \<^verbatim>\<open>objs[i] = r->ring[idx]\<close>). Their loops
  are written once, over the assignment \<open>mv i idx\<close> and the array \<open>st\<close> it writes.

  The unrolled loop
  \<^verbatim>\<open>for (i = 0; i < (n & ~3u); i += 4, idx += 4)\<close> with its four assignments:
\<close>

function unrolled_loop ::
  "(nat \<Rightarrow> nat \<Rightarrow> 's \<Rightarrow> fault + 's) \<Rightarrow> u32 \<Rightarrow> u32 \<Rightarrow> u32 \<Rightarrow> 's \<Rightarrow> fault + (u32 \<times> u32 \<times> 's)" where
  "unrolled_loop mv n i idx st =
     (if i < (n AND NOT 3) then
        (case mv (unat i) (unat idx) st of Inl e \<Rightarrow> Inl e | Inr s1 \<Rightarrow>
        (case mv (unat (i + 1)) (unat (idx + 1)) s1 of Inl e \<Rightarrow> Inl e | Inr s2 \<Rightarrow>
        (case mv (unat (i + 2)) (unat (idx + 2)) s2 of Inl e \<Rightarrow> Inl e | Inr s3 \<Rightarrow>
        (case mv (unat (i + 3)) (unat (idx + 3)) s3 of Inl e \<Rightarrow> Inl e | Inr s4 \<Rightarrow>
           unrolled_loop mv n (i + 4) (idx + 4) s4))))
      else Inr (i, idx, st))"
  by pat_completeness auto

termination
proof (relation "measure (\<lambda>(mv, n, i, idx, st). unat (n AND NOT 3) - unat i)")
  show "wf (measure (\<lambda>(mv, n, i, idx, st). unat (n AND NOT 3) - unat i))"
    by simp
next
  fix mv :: "nat \<Rightarrow> nat \<Rightarrow> 's \<Rightarrow> fault + 's" and n i idx :: u32 and st x2 x2a x2b x2c :: 's
  assume lt: "i < n AND NOT 3"
  have "(n AND NOT 3) AND (n AND 3) = 0"
    by (simp add: bit_eq_iff bit_simps)
  then have "(n AND NOT 3) + (n AND 3) = (n AND NOT 3) OR (n AND 3)"
    by (rule disjunctive_add_eq_or)
  also have "\<dots> = n"
    by (auto simp add: bit_eq_iff bit_simps)
  finally have split: "n AND NOT 3 = n - (n AND 3)"
    by (simp add: algebra_simps)
  have "(3 :: u32) = mask 2"
    by (simp add: mask_eq_exp_minus_1)
  then have "unat (n AND 3) = unat (take_bit 2 n)"
    by (simp only: take_bit_eq_mask)
  also have "\<dots> = unat n mod 4"
    by (simp only: unsigned_take_bit_eq) (simp add: take_bit_eq_mod)
  finally have low: "unat (n AND 3) = unat n mod 4" .
  have "unat (n AND NOT 3) = unat n - unat (n AND 3)"
    unfolding split by (rule unat_sub) (simp add: word_and_le2)
  then have lim: "unat (n AND NOT 3) = 4 * (unat n div 4)"
    by (simp add: low minus_mod_eq_mult_div)
  have "unat n < 2 ^ 32"
    using unsigned_less [of n] by simp
  then have "4 * (unat n div 4) + 4 \<le> (2 :: nat) ^ 32"
    by simp
  moreover have "unat i < unat (n AND NOT 3)"
    using lt by (simp add: word_less_nat_alt)
  ultimately have "unat i + 4 < 2 ^ 32"
    using lim by simp
  then have "unat (i + 4) = unat i + 4"
    by (simp add: unat_word_ariths)
  then show "((mv, n, i + 4, idx + 4, x2c), (mv, n, i, idx, st))
      \<in> measure (\<lambda>(mv, n, i, idx, st). unat (n AND NOT 3) - unat i)"
    using \<open>unat i < unat (n AND NOT 3)\<close> by simp
qed

declare unrolled_loop.simps [simp del]

text \<open>
  The \<^verbatim>\<open>switch (n & 0x3)\<close> that follows it. Its cases fall through, so \<^verbatim>\<open>case 3\<close> does
  one assignment and goes on as \<^verbatim>\<open>case 2\<close>, which goes on as \<^verbatim>\<open>case 1\<close>.
\<close>

definition switch_case1 :: "(nat \<Rightarrow> nat \<Rightarrow> 's \<Rightarrow> fault + 's) \<Rightarrow> u32 \<Rightarrow> u32 \<Rightarrow> 's \<Rightarrow> fault + 's" where
  "switch_case1 mv i idx st = mv (unat i) (unat idx) st"

definition switch_case2 :: "(nat \<Rightarrow> nat \<Rightarrow> 's \<Rightarrow> fault + 's) \<Rightarrow> u32 \<Rightarrow> u32 \<Rightarrow> 's \<Rightarrow> fault + 's" where
  "switch_case2 mv i idx st =
     (case mv (unat i) (unat idx) st of Inl e \<Rightarrow> Inl e
      | Inr st' \<Rightarrow> switch_case1 mv (i + 1) (idx + 1) st')"

definition switch_case3 :: "(nat \<Rightarrow> nat \<Rightarrow> 's \<Rightarrow> fault + 's) \<Rightarrow> u32 \<Rightarrow> u32 \<Rightarrow> 's \<Rightarrow> fault + 's" where
  "switch_case3 mv i idx st =
     (case mv (unat i) (unat idx) st of Inl e \<Rightarrow> Inl e
      | Inr st' \<Rightarrow> switch_case2 mv (i + 1) (idx + 1) st')"

definition switch_rest :: "(nat \<Rightarrow> nat \<Rightarrow> 's \<Rightarrow> fault + 's) \<Rightarrow> u32 \<Rightarrow> u32 \<Rightarrow> u32 \<Rightarrow> 's \<Rightarrow> fault + 's" where
  "switch_rest mv n i idx st =
     (if n AND 3 = 3 then switch_case3 mv i idx st
      else if n AND 3 = 2 then switch_case2 mv i idx st
      else if n AND 3 = 1 then switch_case1 mv i idx st
      else Inr st)"

text \<open>The first loop of the wrapping branch: \<^verbatim>\<open>for (i = 0; idx < size; i++, idx++)\<close>.\<close>

function loop_to_end ::
  "(nat \<Rightarrow> nat \<Rightarrow> 's \<Rightarrow> fault + 's) \<Rightarrow> u32 \<Rightarrow> u32 \<Rightarrow> u32 \<Rightarrow> 's \<Rightarrow> fault + (u32 \<times> 's)" where
  "loop_to_end mv rsize i idx st =
     (if idx < rsize then
        (case mv (unat i) (unat idx) st of Inl e \<Rightarrow> Inl e
         | Inr st' \<Rightarrow> loop_to_end mv rsize (i + 1) (idx + 1) st')
      else Inr (i, st))"
  by pat_completeness auto
termination
proof (relation "measure (\<lambda>(mv, rsize, i, idx, st). unat rsize - unat idx)")
  show "wf (measure (\<lambda>(mv, rsize, i, idx, st). unat rsize - unat idx))"
    by simp
next
  fix mv :: "nat \<Rightarrow> nat \<Rightarrow> 's \<Rightarrow> fault + 's" and rsize i idx :: u32 and st x2 :: 's
  assume "idx < rsize"
  then have lt: "unat idx < unat rsize"
    by (simp add: word_less_nat_alt)
  moreover have "unat rsize < 2 ^ 32"
    using unsigned_less [of rsize] by simp
  ultimately have "unat (idx + 1) = unat idx + 1"
    by (simp add: unat_word_ariths)
  then show "((mv, rsize, i + 1, idx + 1, x2), (mv, rsize, i, idx, st))
      \<in> measure (\<lambda>(mv, rsize, i, idx, st). unat rsize - unat idx)"
    using lt by simp
qed

declare loop_to_end.simps [simp del]

text \<open>The second loop of the wrapping branch: \<^verbatim>\<open>for (idx = 0; i < n; i++, idx++)\<close>.\<close>

function loop_from_start ::
  "(nat \<Rightarrow> nat \<Rightarrow> 's \<Rightarrow> fault + 's) \<Rightarrow> u32 \<Rightarrow> u32 \<Rightarrow> u32 \<Rightarrow> 's \<Rightarrow> fault + 's" where
  "loop_from_start mv n i idx st =
     (if i < n then
        (case mv (unat i) (unat idx) st of Inl e \<Rightarrow> Inl e
         | Inr st' \<Rightarrow> loop_from_start mv n (i + 1) (idx + 1) st')
      else Inr st)"
  by pat_completeness auto
termination
proof (relation "measure (\<lambda>(mv, n, i, idx, st). unat n - unat i)")
  show "wf (measure (\<lambda>(mv, n, i, idx, st). unat n - unat i))"
    by simp
next
  fix mv :: "nat \<Rightarrow> nat \<Rightarrow> 's \<Rightarrow> fault + 's" and n i idx :: u32 and st x2 :: 's
  assume "i < n"
  then have lt: "unat i < unat n"
    by (simp add: word_less_nat_alt)
  moreover have "unat n < 2 ^ 32"
    using unsigned_less [of n] by simp
  ultimately have "unat (i + 1) = unat i + 1"
    by (simp add: unat_word_ariths)
  then show "((mv, n, i + 1, idx + 1, x2), (mv, n, i, idx, st))
      \<in> measure (\<lambda>(mv, n, i, idx, st). unat n - unat i)"
    using lt by simp
qed

declare loop_from_start.simps [simp del]

text \<open>
  The body shared by the two macros, from \<^verbatim>\<open>if (likely(idx + n < size))\<close> on. The sum
  \<open>idx + n\<close> is a 32-bit sum.
\<close>

definition COPY_PTRS ::
  "(nat \<Rightarrow> nat \<Rightarrow> 's \<Rightarrow> fault + 's) \<Rightarrow> u32 \<Rightarrow> u32 \<Rightarrow> u32 \<Rightarrow> 's \<Rightarrow> fault + 's" where
  "COPY_PTRS mv rsize idx n st =
     (if idx + n < rsize then
        (case unrolled_loop mv n 0 idx st of Inl e \<Rightarrow> Inl e
         | Inr (i, idx', st') \<Rightarrow> switch_rest mv n i idx' st')
      else
        (case loop_to_end mv rsize 0 idx st of Inl e \<Rightarrow> Inl e
         | Inr (i, st') \<Rightarrow> loop_from_start mv n i 0 st'))"

text \<open>
  \<^verbatim>\<open>PUSH_PTRS()\<close> inside a push: \<open>p_head\<close>, \<open>mask\<close>, \<open>n\<close> and \<open>objs\<close> are the variables of
  the enclosing function; the assignment is \<^verbatim>\<open>r->ring[idx] = objs[i]\<close>.
\<close>

definition PUSH_PTRS :: "'a ring \<Rightarrow> u32 \<Rightarrow> u32 \<Rightarrow> u32 \<Rightarrow> 'a list \<Rightarrow> fault + 'a ring" where
  "PUSH_PTRS r p_head rmask n objs =
     (let rsize = prod_size r;
          idx = p_head AND rmask
      in case COPY_PTRS (\<lambda>i idx ring. assign ring idx objs i) rsize idx n (slots r) of
           Inl e \<Rightarrow> Inl e
         | Inr ring' \<Rightarrow> Inr (r\<lparr>slots := ring'\<rparr>))"

text \<open>
  \<^verbatim>\<open>POP_PTRS()\<close> inside a pop; the assignment is \<^verbatim>\<open>objs[i] = r->ring[idx]\<close>, and the
  result is the caller's buffer after the stores.
\<close>

definition POP_PTRS :: "'a ring \<Rightarrow> u32 \<Rightarrow> u32 \<Rightarrow> u32 \<Rightarrow> 'a list \<Rightarrow> fault + 'a list" where
  "POP_PTRS r c_head rmask n objs =
     (let idx = c_head AND rmask;
          rsize = cons_size r
      in COPY_PTRS (\<lambda>i idx buf. assign buf i (slots r) idx) rsize idx n objs)"

section \<open>Push and pop\<close>

text \<open>
  The test that all four paths make on the request:
  \<^verbatim>\<open>if (n > avail) { if (behavior == RING_B_FIXED) return 0;
       else { if (avail == 0) return 0; n = avail; } }\<close>.
  \<open>None\<close> is the \<^verbatim>\<open>return 0\<close>; \<open>Some\<close> carries the \<open>n\<close> the function goes on with.
\<close>

definition adjust_n :: "u32 \<Rightarrow> u32 \<Rightarrow> int \<Rightarrow> u32 option" where
  "adjust_n n avail behavior =
     (if n > avail then
        (if behavior = RING_B_FIXED then None
         else if avail = 0 then None
         else Some avail)
      else Some n)"

text \<open>\<^verbatim>\<open>ring_sp_push\<close>. The result is the returned count and the ring afterwards.\<close>

definition ring_sp_push :: "'a ring \<Rightarrow> 'a list \<Rightarrow> u32 \<Rightarrow> int \<Rightarrow> fault + (u32 \<times> 'a ring)" where
  "ring_sp_push r objs n behavior =
     (let rmask = prod_mask r;
          p_head = prod_head r;
          c_tail = cons_tail r;
          avail = rmask + c_tail - p_head
      in case adjust_n n avail behavior of
           None \<Rightarrow> Inr (0, r)
         | Some n \<Rightarrow>
             (let p_next = p_head + n;
                  r1 = r\<lparr>prod_head := p_next\<rparr>
              in case PUSH_PTRS r1 p_head rmask n objs of
                   Inl e \<Rightarrow> Inl e
                 | Inr r2 \<Rightarrow> Inr (n, r2\<lparr>prod_tail := p_next\<rparr>)))"

text \<open>
  \<^verbatim>\<open>CAS(&r->prod.head, o, n)\<close> and \<^verbatim>\<open>CAS(&r->cons.head, o, n)\<close>, run with no other thread
  between the load and the store.
\<close>

definition CAS_prod_head :: "'a ring \<Rightarrow> u32 \<Rightarrow> u32 \<Rightarrow> bool \<times> 'a ring" where
  "CAS_prod_head r old new =
     (if prod_head r = old then (True, r\<lparr>prod_head := new\<rparr>) else (False, r))"

definition CAS_cons_head :: "'a ring \<Rightarrow> u32 \<Rightarrow> u32 \<Rightarrow> bool \<times> 'a ring" where
  "CAS_cons_head r old new =
     (if cons_head r = old then (True, r\<lparr>cons_head := new\<rparr>) else (False, r))"

text \<open>
  The \<^verbatim>\<open>do { ... } while (unlikely(!ok))\<close> loop of \<^verbatim>\<open>ring_mp_push\<close>. \<open>Inl\<close> is the
  \<^verbatim>\<open>return 0\<close> inside the loop; \<open>Inr\<close> carries \<open>prod_head\<close>, \<open>prod_next\<close>, \<open>n\<close> and the
  ring when the loop is left.
\<close>

function mp_push_reserve ::
  "'a ring \<Rightarrow> u32 \<Rightarrow> int \<Rightarrow> 'a ring + (u32 \<times> u32 \<times> u32 \<times> 'a ring)" where
  "mp_push_reserve r n_max behavior =
     (let n = n_max;
          p_head = prod_head r;
          c_tail = cons_tail r;
          avail = prod_mask r + c_tail - p_head
      in case adjust_n n avail behavior of
           None \<Rightarrow> Inl r
         | Some n \<Rightarrow>
             (let p_next = p_head + n
              in case CAS_prod_head r p_head p_next of
                   (ok, r') \<Rightarrow>
                     if \<not> ok then mp_push_reserve r' n_max behavior
                     else Inr (p_head, p_next, n, r')))"
  by pat_completeness auto
termination
  by (relation "{}") (auto simp add: CAS_prod_head_def Let_def)

declare mp_push_reserve.simps [simp del]

text \<open>
  The spin \<^verbatim>\<open>while (unlikely(r->prod.tail != prod_head)) { _mm_pause(); ... }\<close>.
  \<^verbatim>\<open>RING_PAUSE_REP\<close> is 0, so the body changes nothing. The loop may run forever, which is
  the value \<open>None\<close>.
\<close>

partial_function (option) wait_prod_tail :: "'a ring \<Rightarrow> u32 \<Rightarrow> 'a ring option" where
  "wait_prod_tail r p_head =
     (if prod_tail r \<noteq> p_head then wait_prod_tail r p_head else Some r)"

partial_function (option) wait_cons_tail :: "'a ring \<Rightarrow> u32 \<Rightarrow> 'a ring option" where
  "wait_cons_tail r c_head =
     (if cons_tail r \<noteq> c_head then wait_cons_tail r c_head else Some r)"

declare wait_prod_tail.simps [code]
declare wait_cons_tail.simps [code]

text \<open>\<^verbatim>\<open>ring_mp_push\<close>.\<close>

definition ring_mp_push :: "'a ring \<Rightarrow> 'a list \<Rightarrow> u32 \<Rightarrow> int \<Rightarrow> fault + (u32 \<times> 'a ring)" where
  "ring_mp_push r objs n behavior =
     (let rmask = prod_mask r
      in case mp_push_reserve r n behavior of
           Inl r0 \<Rightarrow> Inr (0, r0)
         | Inr (p_head, p_next, n, r1) \<Rightarrow>
             (case PUSH_PTRS r1 p_head rmask n objs of
                Inl e \<Rightarrow> Inl e
              | Inr r2 \<Rightarrow>
                  (case wait_prod_tail r2 p_head of
                     None \<Rightarrow> Inl NeverReturns
                   | Some r3 \<Rightarrow> Inr (n, r3\<lparr>prod_tail := p_next\<rparr>))))"

text \<open>\<^verbatim>\<open>ring_push\<close>: the dispatch on \<^verbatim>\<open>r->prod.sp\<close>.\<close>

definition ring_push :: "'a ring \<Rightarrow> 'a list \<Rightarrow> u32 \<Rightarrow> int \<Rightarrow> fault + (u32 \<times> 'a ring)" where
  "ring_push r objs n behavior =
     (if prod_sp r \<noteq> 0 then ring_sp_push r objs n behavior
      else ring_mp_push r objs n behavior)"

text \<open>
  \<^verbatim>\<open>ring_sc_pop\<close>. The result is the returned count, the ring afterwards and the caller's
  buffer afterwards. The mask is read from the producer block, as in the source.
\<close>

definition ring_sc_pop ::
  "'a ring \<Rightarrow> 'a list \<Rightarrow> u32 \<Rightarrow> int \<Rightarrow> fault + (u32 \<times> 'a ring \<times> 'a list)" where
  "ring_sc_pop r objs n behavior =
     (let rmask = prod_mask r;
          c_head = cons_head r;
          p_tail = prod_tail r;
          avail = p_tail - c_head
      in case adjust_n n avail behavior of
           None \<Rightarrow> Inr (0, r, objs)
         | Some n \<Rightarrow>
             (let c_next = c_head + n;
                  r1 = r\<lparr>cons_head := c_next\<rparr>
              in case POP_PTRS r1 c_head rmask n objs of
                   Inl e \<Rightarrow> Inl e
                 | Inr objs' \<Rightarrow> Inr (n, r1\<lparr>cons_tail := c_next\<rparr>, objs')))"

text \<open>The \<^verbatim>\<open>do { ... } while (unlikely(!ok))\<close> loop of \<^verbatim>\<open>ring_mc_pop\<close>.\<close>

function mc_pop_reserve ::
  "'a ring \<Rightarrow> u32 \<Rightarrow> int \<Rightarrow> 'a ring + (u32 \<times> u32 \<times> u32 \<times> 'a ring)" where
  "mc_pop_reserve r n_max behavior =
     (let n = n_max;
          c_head = cons_head r;
          p_tail = prod_tail r;
          avail = p_tail - c_head
      in case adjust_n n avail behavior of
           None \<Rightarrow> Inl r
         | Some n \<Rightarrow>
             (let c_next = c_head + n
              in case CAS_cons_head r c_head c_next of
                   (ok, r') \<Rightarrow>
                     if \<not> ok then mc_pop_reserve r' n_max behavior
                     else Inr (c_head, c_next, n, r')))"
  by pat_completeness auto
termination
  by (relation "{}") (auto simp add: CAS_cons_head_def Let_def)

declare mc_pop_reserve.simps [simp del]

text \<open>\<^verbatim>\<open>ring_mc_pop\<close>.\<close>

definition ring_mc_pop ::
  "'a ring \<Rightarrow> 'a list \<Rightarrow> u32 \<Rightarrow> int \<Rightarrow> fault + (u32 \<times> 'a ring \<times> 'a list)" where
  "ring_mc_pop r objs n behavior =
     (let rmask = prod_mask r
      in case mc_pop_reserve r n behavior of
           Inl r0 \<Rightarrow> Inr (0, r0, objs)
         | Inr (c_head, c_next, n, r1) \<Rightarrow>
             (case POP_PTRS r1 c_head rmask n objs of
                Inl e \<Rightarrow> Inl e
              | Inr objs' \<Rightarrow>
                  (case wait_cons_tail r1 c_head of
                     None \<Rightarrow> Inl NeverReturns
                   | Some r3 \<Rightarrow> Inr (n, r3\<lparr>cons_tail := c_next\<rparr>, objs'))))"

text \<open>\<^verbatim>\<open>ring_pop\<close>: the dispatch on \<^verbatim>\<open>r->cons.sc\<close>.\<close>

definition ring_pop ::
  "'a ring \<Rightarrow> 'a list \<Rightarrow> u32 \<Rightarrow> int \<Rightarrow> fault + (u32 \<times> 'a ring \<times> 'a list)" where
  "ring_pop r objs n behavior =
     (if cons_sc r \<noteq> 0 then ring_sc_pop r objs n behavior
      else ring_mc_pop r objs n behavior)"

section \<open>Accessors\<close>

text \<open>\<^verbatim>\<open>ring_full\<close> and \<^verbatim>\<open>ring_empty\<close> return a C \<^verbatim>\<open>int\<close> that is 1 or 0.\<close>

definition ring_full :: "'a ring \<Rightarrow> int" where
  "ring_full r =
     (let p_tail = prod_tail r; c_tail = cons_tail r
      in if ((c_tail - p_tail - 1) AND prod_mask r) = 0 then 1 else 0)"

definition ring_empty :: "'a ring \<Rightarrow> int" where
  "ring_empty r =
     (let p_tail = prod_tail r; c_tail = cons_tail r
      in if c_tail = p_tail then 1 else 0)"

definition ring_count :: "'a ring \<Rightarrow> u32" where
  "ring_count r =
     (let p_tail = prod_tail r; c_tail = cons_tail r
      in (p_tail - c_tail) AND prod_mask r)"

definition ring_avail :: "'a ring \<Rightarrow> u32" where
  "ring_avail r =
     (let p_tail = prod_tail r; c_tail = cons_tail r
      in (c_tail - p_tail - 1) AND prod_mask r)"

section \<open>Sequential use of the ring\<close>

text \<open>
  A ring as \<^verbatim>\<open>ring_init\<close> with a power of two leaves it and as every completed push and
  pop keeps it: both blocks hold the size and the mask \<open>size - 1\<close>, the slot array has
  \<open>size\<close> slots, no reservation is unpublished, and at most \<open>size - 1\<close> slots are in use.
\<close>

definition ring_ok :: "'a ring \<Rightarrow> bool" where
  "ring_ok r \<longleftrightarrow>
     (\<exists>k\<in>{..<32}. prod_size r = 2 ^ k) \<and>
     cons_size r = prod_size r \<and>
     prod_mask r = prod_size r - 1 \<and>
     cons_mask r = prod_mask r \<and>
     length (slots r) = unat (prod_size r) \<and>
     prod_head r = prod_tail r \<and>
     cons_head r = cons_tail r \<and>
     prod_tail r - cons_tail r \<le> prod_mask r"

text \<open>
  The handles the ring holds, oldest first: the slots at \<open>(cons.tail + j) & mask\<close> for
  the \<open>prod.tail - cons.tail\<close> published and not yet consumed positions.
\<close>

definition held :: "'a ring \<Rightarrow> 'a list" where
  "held r =
     map (\<lambda>j. slots r ! unat ((cons_tail r + of_nat j) AND prod_mask r))
       [0..<unat (prod_tail r - cons_tail r)]"

text \<open>
  A call of the public interface: the caller's buffer, the requested \<open>n\<close> and the
  behaviour. The caller owes a buffer of at least \<open>n\<close> entries.
\<close>

datatype 'a call = Push "'a list" u32 int | Pop "'a list" u32 int

fun call_ok :: "'a call \<Rightarrow> bool" where
  "call_ok (Push objs n behavior) \<longleftrightarrow> unat n \<le> length objs"
| "call_ok (Pop objs n behavior) \<longleftrightarrow> unat n \<le> length objs"

text \<open>
  One call after the other on the same ring. Beside the ring the run keeps the log of all
  handles pushed so far (the first \<open>ret\<close> entries of each push buffer) and of all handles
  popped so far (the first \<open>ret\<close> entries of each pop buffer after the call).
\<close>

fun step :: "'a ring \<times> 'a list \<times> 'a list \<Rightarrow> 'a call \<Rightarrow> fault + ('a ring \<times> 'a list \<times> 'a list)" where
  "step (r, pushed, popped) (Push objs n behavior) =
     (case ring_push r objs n behavior of
        Inl e \<Rightarrow> Inl e
      | Inr (ret, r') \<Rightarrow> Inr (r', pushed @ take (unat ret) objs, popped))"
| "step (r, pushed, popped) (Pop objs n behavior) =
     (case ring_pop r objs n behavior of
        Inl e \<Rightarrow> Inl e
      | Inr (ret, r', objs') \<Rightarrow> Inr (r', pushed, popped @ take (unat ret) objs'))"

fun run :: "'a ring \<times> 'a list \<times> 'a list \<Rightarrow> 'a call list \<Rightarrow> fault + ('a ring \<times> 'a list \<times> 'a list)" where
  "run s [] = Inr s"
| "run s (c # cs) = (case step s c of Inl e \<Rightarrow> Inl e | Inr s' \<Rightarrow> run s' cs)"

section \<open>The assignments a slot transfer makes\<close>

text \<open>
  \<open>moves mv ps\<close> makes the assignments \<open>mv i idx\<close> for the pairs \<open>(i, idx)\<close> of \<open>ps\<close>
  in order and stops at the first fault. \<open>steps i idx m\<close> are the \<open>m\<close> pairs that start
  at \<open>(i, idx)\<close> and advance both by one. \<open>slot_steps size idx n\<close> are the pairs of a
  transfer of \<open>n\<close> handles that starts at slot \<open>idx\<close>: one run when it ends before
  \<open>size\<close>, else a prefix up to \<open>size\<close> and a suffix from slot 0.
\<close>

fun moves :: "(nat \<Rightarrow> nat \<Rightarrow> 's \<Rightarrow> fault + 's) \<Rightarrow> (nat \<times> nat) list \<Rightarrow> 's \<Rightarrow> fault + 's" where
  "moves mv [] st = Inr st"
| "moves mv ((i, idx) # ps) st =
     (case mv i idx st of Inl e \<Rightarrow> Inl e | Inr st' \<Rightarrow> moves mv ps st')"

primrec steps :: "nat \<Rightarrow> nat \<Rightarrow> nat \<Rightarrow> (nat \<times> nat) list" where
  "steps i idx 0 = []"
| "steps i idx (Suc m) = (i, idx) # steps (Suc i) (Suc idx) m"

definition slot_steps :: "nat \<Rightarrow> nat \<Rightarrow> nat \<Rightarrow> (nat \<times> nat) list" where
  "slot_steps S idx n =
     (if idx + n < S then steps 0 idx n
      else steps 0 idx (S - idx) @ steps (S - idx) 0 (n - (S - idx)))"


section \<open>Word arithmetic and the loops of the slot transfer\<close>

lemma moves_append:
  "moves mv (xs @ ys) st = (case moves mv xs st of Inl e \<Rightarrow> Inl e | Inr st' \<Rightarrow> moves mv ys st')"
  by (induction xs arbitrary: st) (auto split: sum.splits)

lemma steps_append: "steps i idx (a + b) = steps i idx a @ steps (i + a) (idx + a) b"
  by (induction a arbitrary: i idx) simp_all

lemma length_steps: "length (steps i idx m) = m"
  by (induction m arbitrary: i idx) simp_all

lemma nth_steps: "j < m \<Longrightarrow> steps i idx m ! j = (i + j, idx + j)"
proof (induction m arbitrary: i idx j)
  case 0
  then show ?case by simp
next
  case (Suc m)
  then show ?case by (cases j) simp_all
qed

lemma unat_low2: "unat (n AND 3 :: u32) = unat n mod 4"
proof -
  have "(3 :: u32) = mask 2"
    by (simp add: mask_eq_exp_minus_1)
  then have "unat (n AND 3) = unat (take_bit 2 n)"
    by (simp only: take_bit_eq_mask)
  also have "\<dots> = unat n mod 4"
    by (simp only: unsigned_take_bit_eq) (simp add: take_bit_eq_mod)
  finally show ?thesis .
qed

lemma unat_high30: "unat (n AND NOT 3 :: u32) = 4 * (unat n div 4)"
proof -
  have "(n AND NOT 3) AND (n AND 3) = 0"
    by (simp add: bit_eq_iff bit_simps)
  then have "(n AND NOT 3) + (n AND 3) = (n AND NOT 3) OR (n AND 3)"
    by (rule disjunctive_add_eq_or)
  also have "\<dots> = n"
    by (auto simp add: bit_eq_iff bit_simps)
  finally have "n AND NOT 3 = n - (n AND 3)"
    by (simp add: algebra_simps)
  then have "unat (n AND NOT 3) = unat n - unat (n AND 3)"
    by (simp add: unat_sub word_and_le2)
  then show ?thesis
    by (simp add: unat_low2 minus_mod_eq_mult_div)
qed

lemma unat_lt32: "unat (x :: u32) < 2 ^ 32"
  using unsigned_less [of x] by simp

lemma unat_plus_small: "unat (x :: u32) + k < 2 ^ 32 \<Longrightarrow> unat (x + of_nat k) = unat x + k"
  by (simp add: unat_word_ariths unat_of_nat take_bit_nat_eq_self)

lemma unrolled_step:
  "i < n AND NOT 3 \<Longrightarrow> unrolled_loop mv n i idx st =
     (case moves mv [(unat i, unat idx), (unat (i + 1), unat (idx + 1)),
                     (unat (i + 2), unat (idx + 2)), (unat (i + 3), unat (idx + 3))] st of
        Inl e \<Rightarrow> Inl e
      | Inr s4 \<Rightarrow> unrolled_loop mv n (i + 4) (idx + 4) s4)"
  by (subst unrolled_loop.simps) (simp split: sum.splits)

lemma unrolled_stop:
  "\<not> i < n AND NOT 3 \<Longrightarrow> unrolled_loop mv n i idx st = Inr (i, idx, st)"
  by (subst unrolled_loop.simps) simp

lemma unrolled_loop_moves:
  assumes "unat (n AND NOT 3) = unat i + 4 * m" and "unat idx + 4 * m < 2 ^ 32"
  shows "unrolled_loop mv n i idx st =
     (case moves mv (steps (unat i) (unat idx) (4 * m)) st of
        Inl e \<Rightarrow> Inl e
      | Inr st' \<Rightarrow> Inr (n AND NOT 3, idx + of_nat (4 * m), st'))"
  using assms
proof (induction m arbitrary: i idx st)
  case 0
  then have "\<not> i < n AND NOT 3"
    by (simp only: word_less_nat_alt)
  moreover have "i = n AND NOT 3"
    using 0 by (simp only: word_unat_eq_iff)
  ultimately show ?case
    using unrolled_stop [of i n mv idx st] by simp
next
  case (Suc m)
  let ?lim = "n AND NOT 3"
  have lt: "i < ?lim"
    using Suc.prems(1) by (simp only: word_less_nat_alt) simp
  have ub: "unat ?lim < 2 ^ 32"
    using unsigned_less [of ?lim] by simp
  have i1: "unat (i + 1) = unat i + 1" and i2: "unat (i + 2) = unat i + 2"
    and i3: "unat (i + 3) = unat i + 3" and i4: "unat (i + 4) = unat i + 4"
    using unat_plus_small [of i 1] unat_plus_small [of i 2] unat_plus_small [of i 3]
      unat_plus_small [of i 4] Suc.prems(1) ub by simp_all
  have x1: "unat (idx + 1) = unat idx + 1" and x2: "unat (idx + 2) = unat idx + 2"
    and x3: "unat (idx + 3) = unat idx + 3" and x4: "unat (idx + 4) = unat idx + 4"
    using unat_plus_small [of idx 1] unat_plus_small [of idx 2] unat_plus_small [of idx 3]
      unat_plus_small [of idx 4] Suc.prems(2) by simp_all
  have st: "steps (unat i) (unat idx) (4 * Suc m) =
      [(unat i, unat idx), (unat (i + 1), unat (idx + 1)),
       (unat (i + 2), unat (idx + 2)), (unat (i + 3), unat (idx + 3))]
      @ steps (unat (i + 4)) (unat (idx + 4)) (4 * m)"
    using steps_append [of "unat i" "unat idx" 4 "4 * m"]
    by (simp add: numeral_eq_Suc i1 i2 i3 i4 x1 x2 x3 x4)
  have ih: "unrolled_loop mv n (i + 4) (idx + 4) s =
     (case moves mv (steps (unat (i + 4)) (unat (idx + 4)) (4 * m)) s of
        Inl e \<Rightarrow> Inl e
      | Inr st' \<Rightarrow> Inr (?lim, idx + 4 + of_nat (4 * m), st'))" for s
    using Suc.prems by (intro Suc.IH) (simp_all add: i4 x4)
  have w: "idx + 4 + of_nat (4 * m) = idx + of_nat (4 * Suc m)"
    by simp
  show ?case
    unfolding unrolled_step [OF lt] st moves_append ih w
    by (simp split: sum.splits)
qed





lemma switch_rest_moves:
  assumes "unat i + unat n mod 4 \<le> 2 ^ 32" and "unat idx + unat n mod 4 \<le> 2 ^ 32"
  shows "switch_rest mv n i idx st = moves mv (steps (unat i) (unat idx) (unat n mod 4)) st"
proof -
  have "unat n mod 4 < 4"
    by simp
  then consider "unat n mod 4 = 0" | "unat n mod 4 = 1" | "unat n mod 4 = 2" | "unat n mod 4 = 3"
    by linarith
  then show ?thesis
  proof cases
    case 1
    then have "unat (n AND 3) = 0"
      by (simp only: unat_low2)
    then have "n AND 3 = 0"
      by (simp only: unat_eq_0)
    then show ?thesis
      by (simp add: switch_rest_def 1)
  next
    case 2
    then have "unat (n AND 3) = unat (1 :: u32)"
      by (simp only: unat_low2) simp
    then have "n AND 3 = 1"
      by (simp only: word_unat_eq_iff)
    then show ?thesis
      by (simp add: switch_rest_def switch_case1_def 2 split: sum.splits)
  next
    case 3
    then have "unat (n AND 3) = unat (2 :: u32)"
      by (simp only: unat_low2) simp
    then have sel: "n AND 3 = 2"
      by (simp only: word_unat_eq_iff)
    have i1: "unat (i + 1) = Suc (unat i)"
      using unat_plus_small [of i 1] assms(1) unfolding 3 by simp
    have x1: "unat (idx + 1) = Suc (unat idx)"
      using unat_plus_small [of idx 1] assms(2) unfolding 3 by simp
    have s: "steps (unat i) (unat idx) 2 = [(unat i, unat idx), (Suc (unat i), Suc (unat idx))]"
      by (simp add: numeral_eq_Suc)
    show ?thesis
      unfolding 3 s
      by (simp add: switch_rest_def switch_case1_def switch_case2_def sel i1 x1 split: sum.splits)
  next
    case 4
    then have "unat (n AND 3) = unat (3 :: u32)"
      by (simp only: unat_low2) simp
    then have sel: "n AND 3 = 3"
      by (simp only: word_unat_eq_iff)
    have i1: "unat (i + 1) = Suc (unat i)"
      using unat_plus_small [of i 1] assms(1) unfolding 4 by simp
    have x1: "unat (idx + 1) = Suc (unat idx)"
      using unat_plus_small [of idx 1] assms(2) unfolding 4 by simp
    have i2: "unat (i + 1 + 1) = Suc (Suc (unat i))"
      using unat_plus_small [of i 2] assms(1) unfolding 4 by (simp add: add.commute)
    have x2: "unat (idx + 1 + 1) = Suc (Suc (unat idx))"
      using unat_plus_small [of idx 2] assms(2) unfolding 4 by (simp add: add.commute)
    have s: "steps (unat i) (unat idx) 3 = [(unat i, unat idx), (Suc (unat i), Suc (unat idx)),
        (Suc (Suc (unat i)), Suc (Suc (unat idx)))]"
      by (simp add: numeral_eq_Suc)
    show ?thesis
      unfolding 4 s switch_rest_def switch_case1_def switch_case2_def switch_case3_def
        sel i1 x1 i2 x2
      by (simp split: sum.splits)
  qed
qed


lemma loop_to_end_moves:
  assumes "unat rsize = unat idx + m" and "unat i + m < 2 ^ 32"
  shows "loop_to_end mv rsize i idx st =
     (case moves mv (steps (unat i) (unat idx) m) st of
        Inl e \<Rightarrow> Inl e
      | Inr st' \<Rightarrow> Inr (i + of_nat m, st'))"
  using assms
proof (induction m arbitrary: i idx st)
  case 0
  then have "\<not> idx < rsize"
    by (simp only: word_less_nat_alt)
  then show ?case
    by (subst loop_to_end.simps) simp
next
  case (Suc m)
  have lt: "idx < rsize"
    using Suc.prems(1) by (simp add: word_less_nat_alt)
  have ub: "unat rsize < 2 ^ 32"
    using unsigned_less [of rsize] by simp
  have x1: "unat (idx + 1) = unat idx + 1"
    using unat_plus_small [of idx 1] Suc.prems(1) ub by simp
  have i1: "unat (i + 1) = unat i + 1"
    using unat_plus_small [of i 1] Suc.prems(2) by simp
  have ih: "loop_to_end mv rsize (i + 1) (idx + 1) s =
     (case moves mv (steps (unat (i + 1)) (unat (idx + 1)) m) s of
        Inl e \<Rightarrow> Inl e
      | Inr st' \<Rightarrow> Inr (i + 1 + of_nat m, st'))" for s
    using Suc.prems by (intro Suc.IH) (simp_all add: i1 x1)
  show ?case
    by (subst loop_to_end.simps) (simp add: lt ih i1 x1 split: sum.splits)
qed



lemma loop_from_start_moves:
  assumes "unat n = unat i + m" and "unat idx + m < 2 ^ 32"
  shows "loop_from_start mv n i idx st = moves mv (steps (unat i) (unat idx) m) st"
  using assms
proof (induction m arbitrary: i idx st)
  case 0
  then have "\<not> i < n"
    by (simp only: word_less_nat_alt)
  then show ?case
    by (subst loop_from_start.simps) simp
next
  case (Suc m)
  have lt: "i < n"
    using Suc.prems(1) by (simp add: word_less_nat_alt)
  have ub: "unat n < 2 ^ 32"
    using unsigned_less [of n] by simp
  have i1: "unat (i + 1) = unat i + 1"
    using unat_plus_small [of i 1] Suc.prems(1) ub by simp
  have x1: "unat (idx + 1) = unat idx + 1"
    using unat_plus_small [of idx 1] Suc.prems(2) by simp
  have ih: "loop_from_start mv n (i + 1) (idx + 1) s =
     moves mv (steps (unat (i + 1)) (unat (idx + 1)) m) s" for s
    using Suc.prems by (intro Suc.IH) (simp_all add: i1 x1)
  show ?case
    by (subst loop_from_start.simps) (simp add: lt ih i1 x1 split: sum.splits)
qed

lemma COPY_PTRS_moves:
  assumes "unat idx < unat rsize" and "unat idx + unat n < 2 ^ 32"
  shows "COPY_PTRS mv rsize idx n st = moves mv (slot_steps (unat rsize) (unat idx) (unat n)) st"
proof -
  have sum: "unat (idx + n) = unat idx + unat n"
    using assms(2) by (simp add: unat_word_ariths)
  show ?thesis
  proof (cases "idx + n < rsize")
    case True
    then have fits: "unat idx + unat n < unat rsize"
      by (simp only: word_less_nat_alt sum)
    define m where "m = unat n div 4"
    have n_split: "4 * m + unat n mod 4 = unat n"
      by (simp add: m_def)
    have lim: "unat (n AND NOT 3) = unat (0 :: u32) + 4 * m"
      by (simp only: unat_high30 m_def) simp
    have room: "unat idx + 4 * m < 2 ^ 32"
      using assms(2) n_split by linarith
    have idx': "unat (idx + of_nat (4 * m)) = unat idx + 4 * m"
      using room by (rule unat_plus_small)
    have loop: "unrolled_loop mv n 0 idx st =
        (case moves mv (steps 0 (unat idx) (4 * m)) st of
           Inl e \<Rightarrow> Inl e
         | Inr st' \<Rightarrow> Inr (n AND NOT 3, idx + of_nat (4 * m), st'))"
      using unrolled_loop_moves [OF lim room, of mv st] by simp
    have lim_ub: "unat (n AND NOT 3) + unat n mod 4 \<le> 2 ^ 32"
      using unat_lt32 [of n] by (simp only: unat_high30) simp
    have idx_ub: "unat (idx + of_nat (4 * m)) + unat n mod 4 \<le> 2 ^ 32"
      using assms(2) n_split unfolding idx' by linarith
    have rest: "switch_rest mv n (n AND NOT 3) (idx + of_nat (4 * m)) s =
        moves mv (steps (4 * m) (unat idx + 4 * m) (unat n mod 4)) s" for s
      using switch_rest_moves [OF lim_ub idx_ub, of mv s] lim idx' by simp
    have "COPY_PTRS mv rsize idx n st =
        (case moves mv (steps 0 (unat idx) (4 * m)) st of
           Inl e \<Rightarrow> Inl e
         | Inr st' \<Rightarrow> moves mv (steps (4 * m) (unat idx + 4 * m) (unat n mod 4)) st')"
      unfolding COPY_PTRS_def loop using True rest by (simp split: sum.splits)
    also have "\<dots> = moves mv (steps 0 (unat idx) (4 * m + unat n mod 4)) st"
      using steps_append [of 0 "unat idx" "4 * m" "unat n mod 4"] by (simp add: moves_append)
    also have "\<dots> = moves mv (slot_steps (unat rsize) (unat idx) (unat n)) st"
      using fits n_split by (simp add: slot_steps_def)
    finally show ?thesis .
  next
    case False
    then have wraps: "\<not> unat idx + unat n < unat rsize"
      by (simp add: word_less_nat_alt sum)
    define m where "m = unat rsize - unat idx"
    have m: "unat rsize = unat idx + m"
      using assms(1) by (simp add: m_def)
    have m_ub: "unat (0 :: u32) + m < 2 ^ 32"
      using unat_lt32 [of rsize] m by simp
    have m_le: "m \<le> unat n"
      using wraps m by linarith
    have first: "loop_to_end mv rsize 0 idx st =
        (case moves mv (steps 0 (unat idx) m) st of
           Inl e \<Rightarrow> Inl e
         | Inr st' \<Rightarrow> Inr (of_nat m, st'))"
      using loop_to_end_moves [OF m m_ub, of mv st, unfolded unsigned_0 add_0] .
    have im: "unat (of_nat m :: u32) = m"
      using m_ub by (simp add: unat_of_nat take_bit_nat_eq_self)
    have n_split: "unat n = unat (of_nat m :: u32) + (unat n - m)"
      using m_le im by simp
    have room: "unat (0 :: u32) + (unat n - m) < 2 ^ 32"
      using unat_lt32 [of n] by simp
    have second: "loop_from_start mv n (of_nat m) 0 s = moves mv (steps m 0 (unat n - m)) s" for s
      using loop_from_start_moves [OF n_split room, of mv s] im by simp
    have "COPY_PTRS mv rsize idx n st =
        (case moves mv (steps 0 (unat idx) m) st of
           Inl e \<Rightarrow> Inl e
         | Inr st' \<Rightarrow> moves mv (steps m 0 (unat n - m)) st')"
      unfolding COPY_PTRS_def first using False second by (simp split: sum.splits)
    also have "\<dots> = moves mv (slot_steps (unat rsize) (unat idx) (unat n)) st"
      using wraps unfolding m_def by (simp add: slot_steps_def moves_append)
    finally show ?thesis .
  qed
qed



lemma slot_steps_eq:
  assumes "idx < S" and "n \<le> S"
  shows "slot_steps S idx n = map (\<lambda>j. (j, (idx + j) mod S)) [0..<n]"
proof (rule nth_equalityI)
  show len: "length (slot_steps S idx n) = length (map (\<lambda>j. (j, (idx + j) mod S)) [0..<n])"
    using assms by (simp add: slot_steps_def length_steps)
  fix j
  assume "j < length (slot_steps S idx n)"
  then have j: "j < n"
    using len by simp
  show "slot_steps S idx n ! j = map (\<lambda>j. (j, (idx + j) mod S)) [0..<n] ! j"
  proof (cases "idx + j < S")
    case True
    then have "j < S - idx"
      by simp
    with True show ?thesis
      using j assms by (simp add: slot_steps_def nth_steps nth_append length_steps)
  next
    case False
    then have past: "\<not> j < S - idx" "\<not> idx + n < S" "j - (S - idx) < n - (S - idx)"
      using j assms by simp_all
    have "idx + j - S < S"
      using assms j by simp
    then have "(idx + j) mod S = j - (S - idx)"
      using False assms by (simp add: mod_if)
    then show ?thesis
      using j past by (simp add: slot_steps_def nth_steps nth_append length_steps)
  qed
qed

lemma unat_and_pow2_mask: "unat (x AND (2 ^ k - 1) :: u32) = unat x mod 2 ^ k"
proof -
  have "unat (x AND (2 ^ k - 1)) = unat (take_bit k x)"
    by (simp only: take_bit_eq_mask mask_eq_exp_minus_1)
  also have "\<dots> = unat x mod 2 ^ k"
    by (simp only: unsigned_take_bit_eq) (simp add: take_bit_eq_mod)
  finally show ?thesis .
qed

lemma unat_pow2:
  assumes "k < 32"
  shows "unat (2 ^ k :: u32) = 2 ^ k"
proof -
  have "(2 :: nat) ^ k < 2 ^ 32"
    using assms by (rule power_strict_increasing) simp
  then have "(2 :: nat) ^ k mod 2 ^ LENGTH(32) = 2 ^ k"
    by simp
  then have "unat (of_nat (2 ^ k) :: u32) = 2 ^ k"
    by (simp only: unat_of_nat)
  then show ?thesis
    by simp
qed

lemma slot_index:
  assumes "k \<le> 32"
  shows "unat ((h + of_nat j) AND (2 ^ k - 1) :: u32) = (unat h + j) mod 2 ^ k"
proof -
  have dvd: "(2 :: nat) ^ k dvd 2 ^ 32"
    using assms by (rule le_imp_power_dvd)
  have "unat (h + of_nat j :: u32) = (unat h + j) mod 2 ^ 32"
    by (simp add: unat_word_ariths unat_of_nat take_bit_eq_mod mod_simps)
  then have "unat ((h + of_nat j) AND (2 ^ k - 1) :: u32) = (unat h + j) mod 2 ^ 32 mod 2 ^ k"
    by (simp only: unat_and_pow2_mask)
  also have "\<dots> = (unat h + j) mod 2 ^ k"
    using dvd by (rule mod_mod_cancel)
  finally show ?thesis .
qed

lemma mod_shift_le:
  assumes "x \<le> y" and "y < S" and "(a + x) mod S = (a + y) mod (S :: nat)"
  shows "x = y"
proof (rule ccontr)
  assume "x \<noteq> y"
  then have pos: "0 < y - x" and small: "y - x < S"
    using assms(1,2) by simp_all
  have "a + x \<le> a + y"
    using assms(1) by simp
  then have "S dvd (a + y) - (a + x)"
    using mod_eq_dvd_iff_nat [of "a + x" "a + y" S] assms(3) by metis
  then have "S dvd y - x"
    by simp
  then show False
    using pos small by (simp add: nat_dvd_not_less)
qed

lemma mod_shift_inj:
  assumes "x < S" and "y < S" and "(a + x) mod S = (a + y) mod (S :: nat)"
  shows "x = y"
proof (cases "x \<le> y")
  case True
  then show ?thesis
    using assms by (intro mod_shift_le [of x y S a])
next
  case False
  then have "y = x"
    using assms by (intro mod_shift_le [of y x S a]) simp_all
  then show ?thesis
    by simp
qed

lemma moves_push:
  assumes "\<forall>j<n. f j < length ring" and "n \<le> length objs" and "inj_on f {..<n}"
  shows "\<exists>ring'. moves (\<lambda>i idx ring. assign ring idx objs i) (map (\<lambda>j. (j, f j)) [0..<n]) ring
            = Inr ring'
          \<and> length ring' = length ring
          \<and> (\<forall>j<n. ring' ! f j = objs ! j)
          \<and> (\<forall>x. x \<notin> f ` {..<n} \<longrightarrow> ring' ! x = ring ! x)"
  using assms
proof (induction n)
  case 0
  then show ?case by simp
next
  case (Suc n)
  have "inj_on f {..<n}"
    using Suc.prems(3) by (rule inj_on_subset) auto
  then obtain mid where mid:
    "moves (\<lambda>i idx ring. assign ring idx objs i) (map (\<lambda>j. (j, f j)) [0..<n]) ring = Inr mid"
    "length mid = length ring" "\<forall>j<n. mid ! f j = objs ! j"
    "\<forall>x. x \<notin> f ` {..<n} \<longrightarrow> mid ! x = ring ! x"
    using Suc.IH Suc.prems(1,2) by auto
  have fresh: "f j \<noteq> f n" if "j < n" for j
    using Suc.prems(3) that by (auto simp add: inj_on_def)
  have last: "assign mid (f n) objs n = Inr (mid[f n := objs ! n])"
    using Suc.prems(1,2) mid(2) by (simp add: assign_def)
  have "moves (\<lambda>i idx ring. assign ring idx objs i) (map (\<lambda>j. (j, f j)) [0..<Suc n]) ring
      = Inr (mid[f n := objs ! n])"
    by (simp add: moves_append mid(1) last)
  moreover have "\<forall>j<Suc n. (mid[f n := objs ! n]) ! f j = objs ! j"
  proof (intro allI impI)
    fix j
    assume j: "j < Suc n"
    show "(mid[f n := objs ! n]) ! f j = objs ! j"
    proof (cases "j = n")
      case True
      then show ?thesis
        using Suc.prems(1) mid(2) by simp
    next
      case False
      then have "j < n"
        using j by simp
      then show ?thesis
        using fresh [of j] mid(3) by simp
    qed
  qed
  moreover have "\<forall>x. x \<notin> f ` {..<Suc n} \<longrightarrow> (mid[f n := objs ! n]) ! x = ring ! x"
    using mid(4) by (auto simp add: nth_list_update lessThan_Suc)
  ultimately show ?case
    using mid(2) by simp
qed

lemma moves_pop:
  assumes "\<forall>j<n. f j < length rs" and "n \<le> length buf"
  shows "moves (\<lambda>i idx buf. assign buf i rs idx) (map (\<lambda>j. (j, f j)) [0..<n]) buf
      = Inr (map (\<lambda>j. rs ! f j) [0..<n] @ drop n buf)"
  using assms
proof (induction n)
  case 0
  then show ?case by simp
next
  case (Suc n)
  let ?got = "map (\<lambda>j. rs ! f j) [0..<n]"
  have ih: "moves (\<lambda>i idx buf. assign buf i rs idx) (map (\<lambda>j. (j, f j)) [0..<n]) buf
      = Inr (?got @ drop n buf)"
    using Suc by simp
  have "drop n buf = buf ! n # drop (Suc n) buf"
    using Suc.prems(2) by (simp add: Cons_nth_drop_Suc)
  then have upd: "(?got @ drop n buf)[n := v] = ?got @ v # drop (Suc n) buf" for v
    by (simp add: list_update_append)
  have "assign (?got @ drop n buf) n rs (f n) = Inr ((?got @ drop n buf)[n := rs ! f n])"
    using Suc.prems by (simp add: assign_def)
  then show ?case
    by (simp add: moves_append ih upd)
qed

lemma PUSH_PTRS_result:
  assumes k: "k < 32" and sz: "prod_size r = 2 ^ k" and len: "length (slots r) = 2 ^ k"
    and n: "unat n < 2 ^ k" and objs: "unat n \<le> length objs"
  shows "\<exists>ring'. PUSH_PTRS r h (2 ^ k - 1) n objs = Inr (r\<lparr>slots := ring'\<rparr>)
          \<and> length ring' = 2 ^ k
          \<and> (\<forall>j<unat n. ring' ! ((unat h + j) mod 2 ^ k) = objs ! j)
          \<and> (\<forall>x. (\<forall>j<unat n. x \<noteq> (unat h + j) mod 2 ^ k) \<longrightarrow> ring' ! x = slots r ! x)"
proof -
  let ?S = "(2 :: nat) ^ k"
  let ?idx = "h AND (2 ^ k - 1)"
  let ?f = "\<lambda>j. (unat ?idx + j) mod ?S"
  have S: "unat (prod_size r) = ?S"
    using k by (simp only: sz unat_pow2)
  have idx: "unat ?idx = unat h mod ?S"
    by (rule unat_and_pow2_mask)
  then have idx_lt: "unat ?idx < ?S"
    by simp
  have "?S \<le> 2 ^ 31"
    using k by (intro power_increasing) simp_all
  then have room: "unat ?idx + unat n < 2 ^ 32"
    using idx_lt n by simp
  have f: "?f j = (unat h + j) mod ?S" for j
    unfolding idx by (rule mod_add_left_eq)
  have copy: "COPY_PTRS mv (prod_size r) ?idx n (slots r)
      = moves mv (map (\<lambda>j. (j, ?f j)) [0..<unat n]) (slots r)" for mv
    using COPY_PTRS_moves [of ?idx "prod_size r" n mv "slots r"] idx_lt room n
      slot_steps_eq [of "unat ?idx" ?S "unat n"]
    by (simp only: S)
  have inj: "inj_on ?f {..<unat n}"
  proof (rule inj_onI)
    fix x y
    assume "x \<in> {..<unat n}" and "y \<in> {..<unat n}" and "?f x = ?f y"
    then show "x = y"
      using n mod_shift_inj [of x ?S y "unat ?idx"] by simp
  qed
  have "\<forall>j<unat n. ?f j < length (slots r)"
    by (simp add: len)
  from moves_push [OF this objs inj]
  obtain ring' where ring':
    "moves (\<lambda>i idx ring. assign ring idx objs i) (map (\<lambda>j. (j, ?f j)) [0..<unat n]) (slots r)
       = Inr ring'"
    "length ring' = length (slots r)" "\<forall>j<unat n. ring' ! ?f j = objs ! j"
    "\<forall>x. x \<notin> ?f ` {..<unat n} \<longrightarrow> ring' ! x = slots r ! x"
    by blast
  have "PUSH_PTRS r h (2 ^ k - 1) n objs = Inr (r\<lparr>slots := ring'\<rparr>)"
    by (simp add: PUSH_PTRS_def Let_def copy ring'(1))
  moreover have "\<forall>j<unat n. ring' ! ((unat h + j) mod ?S) = objs ! j"
    using ring'(3) by (simp only: f)
  moreover have "\<forall>x. (\<forall>j<unat n. x \<noteq> (unat h + j) mod ?S) \<longrightarrow> ring' ! x = slots r ! x"
    using ring'(4) by (auto simp only: f image_iff lessThan_iff)
  ultimately show ?thesis
    using ring'(2) len by auto
qed

lemma POP_PTRS_result:
  assumes k: "k < 32" and sz: "cons_size r = 2 ^ k" and len: "length (slots r) = 2 ^ k"
    and n: "unat n < 2 ^ k" and objs: "unat n \<le> length objs"
  shows "POP_PTRS r h (2 ^ k - 1) n objs
      = Inr (map (\<lambda>j. slots r ! ((unat h + j) mod 2 ^ k)) [0..<unat n] @ drop (unat n) objs)"
proof -
  let ?S = "(2 :: nat) ^ k"
  let ?idx = "h AND (2 ^ k - 1)"
  let ?f = "\<lambda>j. (unat ?idx + j) mod ?S"
  have S: "unat (cons_size r) = ?S"
    using k by (simp only: sz unat_pow2)
  have idx: "unat ?idx = unat h mod ?S"
    by (rule unat_and_pow2_mask)
  then have idx_lt: "unat ?idx < ?S"
    by simp
  have "?S \<le> 2 ^ 31"
    using k by (intro power_increasing) simp_all
  then have room: "unat ?idx + unat n < 2 ^ 32"
    using idx_lt n by simp
  have f: "?f j = (unat h + j) mod ?S" for j
    unfolding idx by (rule mod_add_left_eq)
  have copy: "COPY_PTRS mv (cons_size r) ?idx n objs
      = moves mv (map (\<lambda>j. (j, ?f j)) [0..<unat n]) objs" for mv
    using COPY_PTRS_moves [of ?idx "cons_size r" n mv objs] idx_lt room n
      slot_steps_eq [of "unat ?idx" ?S "unat n"]
    by (simp only: S)
  have "\<forall>j<unat n. ?f j < length (slots r)"
    by (simp add: len)
  from moves_pop [OF this objs]
  have "POP_PTRS r h (2 ^ k - 1) n objs
      = Inr (map (\<lambda>j. slots r ! ?f j) [0..<unat n] @ drop (unat n) objs)"
    by (simp add: POP_PTRS_def Let_def copy)
  then show ?thesis
    by (simp only: f)
qed


section \<open>Accessors\<close>

lemma and_split_sum: "(d AND m) + (NOT d AND m) = (m :: u32)"
proof -
  have "(d AND m) AND (NOT d AND m) = 0"
    by (simp add: bit_eq_iff bit_simps)
  then have "(d AND m) + (NOT d AND m) = (d AND m) OR (NOT d AND m)"
    by (rule disjunctive_add_eq_or)
  also have "\<dots> = m"
    by (auto simp add: bit_eq_iff bit_simps)
  finally show ?thesis .
qed

lemma count_avail_word: "ring_count r + ring_avail r = prod_mask r"
proof -
  have "cons_tail r - prod_tail r - 1 = NOT (prod_tail r - cons_tail r)"
    by (simp add: not_eq_complement)
  then show ?thesis
    by (simp only: ring_count_def ring_avail_def Let_def and_split_sum)
qed

lemma count_le_mask: "ring_count r \<le> prod_mask r"
  by (simp add: ring_count_def Let_def word_and_le1)

lemma count_avail_nat: "unat (ring_count r) + unat (ring_avail r) = unat (prod_mask r)"
proof -
  have "ring_avail r = prod_mask r - ring_count r"
    using count_avail_word [of r] by (simp add: algebra_simps)
  then have "unat (ring_avail r) = unat (prod_mask r) - unat (ring_count r)"
    using count_le_mask [of r] by (simp add: unat_sub)
  moreover have "unat (ring_count r) \<le> unat (prod_mask r)"
    using count_le_mask [of r] by (simp add: word_le_nat_alt)
  ultimately show ?thesis
    by simp
qed

lemma unat_pow2_minus1: "k < 32 \<Longrightarrow> unat (2 ^ k - 1 :: u32) = 2 ^ k - 1"
proof -
  assume k: "k < 32"
  have "(1 :: u32) \<le> 2 ^ k"
    using k by (simp add: word_le_nat_alt unat_pow2)
  then have "unat (2 ^ k - 1 :: u32) = unat (2 ^ k :: u32) - unat (1 :: u32)"
    by (rule unat_sub)
  then show ?thesis
    using k by (simp add: unat_pow2)
qed

section \<open>The multi paths run alone\<close>

lemma wait_prod_tail_Some:
  assumes "wait_prod_tail r h = Some r'"
  shows "prod_tail r = h"
  by (rule wait_prod_tail.raw_induct [OF _ assms]) (simp split: if_splits)

lemma wait_prod_tail_eq: "wait_prod_tail r h = (if prod_tail r = h then Some r else None)"
proof (cases "prod_tail r = h")
  case True
  then show ?thesis
    by (subst wait_prod_tail.simps) simp
next
  case False
  then have "wait_prod_tail r h = None"
    using wait_prod_tail_Some [of r h] by (cases "wait_prod_tail r h") auto
  with False show ?thesis
    by simp
qed

lemma wait_cons_tail_Some:
  assumes "wait_cons_tail r h = Some r'"
  shows "cons_tail r = h"
  by (rule wait_cons_tail.raw_induct [OF _ assms]) (simp split: if_splits)

lemma wait_cons_tail_eq: "wait_cons_tail r h = (if cons_tail r = h then Some r else None)"
proof (cases "cons_tail r = h")
  case True
  then show ?thesis
    by (subst wait_cons_tail.simps) simp
next
  case False
  then have "wait_cons_tail r h = None"
    using wait_cons_tail_Some [of r h] by (cases "wait_cons_tail r h") auto
  with False show ?thesis
    by simp
qed

lemma mp_push_reserve_eq:
  "mp_push_reserve r n b =
     (case adjust_n n (prod_mask r + cons_tail r - prod_head r) b of
        None \<Rightarrow> Inl r
      | Some m \<Rightarrow> Inr (prod_head r, prod_head r + m, m, r\<lparr>prod_head := prod_head r + m\<rparr>))"
  by (subst mp_push_reserve.simps) (simp add: Let_def CAS_prod_head_def split: option.splits)

lemma mc_pop_reserve_eq:
  "mc_pop_reserve r n b =
     (case adjust_n n (prod_tail r - cons_head r) b of
        None \<Rightarrow> Inl r
      | Some m \<Rightarrow> Inr (cons_head r, cons_head r + m, m, r\<lparr>cons_head := cons_head r + m\<rparr>))"
  by (subst mc_pop_reserve.simps) (simp add: Let_def CAS_cons_head_def split: option.splits)

lemma PUSH_PTRS_slots_only:
  assumes "PUSH_PTRS r h m n objs = Inr r'"
  shows "r' = r\<lparr>slots := slots r'\<rparr>"
  using assms by (auto simp add: PUSH_PTRS_def Let_def split: sum.splits)

lemma ring_mp_push_eq:
  assumes "prod_head r = prod_tail r"
  shows "ring_mp_push r objs n b = ring_sp_push r objs n b"
proof (cases "adjust_n n (prod_mask r + cons_tail r - prod_head r) b")
  case None
  then show ?thesis
    by (simp add: ring_mp_push_def ring_sp_push_def mp_push_reserve_eq Let_def)
next
  case (Some m)
  let ?r1 = "r\<lparr>prod_head := prod_head r + m\<rparr>"
  show ?thesis
  proof (cases "PUSH_PTRS ?r1 (prod_head r) (prod_mask r) m objs")
    case (Inl e)
    then show ?thesis
      using Some by (simp add: ring_mp_push_def ring_sp_push_def mp_push_reserve_eq Let_def)
  next
    case (Inr r2)
    then have "r2 = ?r1\<lparr>slots := slots r2\<rparr>"
      by (rule PUSH_PTRS_slots_only)
    then have "prod_tail r2 = prod_head r"
      using assms by (metis ring.select_convs(5) ring.surjective ring.update_convs(4)
          ring.update_convs(11))
    then show ?thesis
      using Some Inr
      by (simp add: ring_mp_push_def ring_sp_push_def mp_push_reserve_eq Let_def
          wait_prod_tail_eq)
  qed
qed

lemma ring_mc_pop_eq:
  assumes "cons_head r = cons_tail r"
  shows "ring_mc_pop r objs n b = ring_sc_pop r objs n b"
  using assms
  by (simp add: ring_mc_pop_def ring_sc_pop_def mc_pop_reserve_eq Let_def wait_cons_tail_eq
      split: option.splits sum.splits)

lemma ring_push_eq:
  "prod_head r = prod_tail r \<Longrightarrow> ring_push r objs n b = ring_sp_push r objs n b"
  by (simp add: ring_push_def ring_mp_push_eq)

lemma ring_pop_eq:
  "cons_head r = cons_tail r \<Longrightarrow> ring_pop r objs n b = ring_sc_pop r objs n b"
  by (simp add: ring_pop_def ring_mc_pop_eq)

section \<open>Push and pop on a well-formed ring\<close>

lemma ring_okE:
  assumes "ring_ok r"
  obtains k where "k < 32" and "prod_size r = 2 ^ k" and "cons_size r = 2 ^ k"
    and "prod_mask r = 2 ^ k - 1" and "length (slots r) = 2 ^ k"
    and "prod_head r = prod_tail r" and "cons_head r = cons_tail r"
    and "unat (prod_tail r - cons_tail r) < 2 ^ k"
proof -
  obtain k where k: "k < 32" "prod_size r = 2 ^ k"
    using assms by (auto simp add: ring_ok_def)
  have m: "prod_mask r = 2 ^ k - 1"
    using assms k by (simp add: ring_ok_def)
  have "prod_tail r - cons_tail r \<le> prod_mask r"
    using assms unfolding ring_ok_def by blast
  then have "unat (prod_tail r - cons_tail r) \<le> unat (prod_mask r)"
    by (simp only: word_le_nat_alt)
  moreover have "unat (prod_mask r) = 2 ^ k - 1"
    using k(1) by (simp add: m unat_pow2_minus1)
  moreover have "(0 :: nat) < 2 ^ k"
    by simp
  ultimately have "unat (prod_tail r - cons_tail r) < 2 ^ k"
    by linarith
  moreover have "length (slots r) = 2 ^ k"
    using assms k by (simp add: ring_ok_def unat_pow2)
  ultimately show thesis
    using that [of k] k m assms by (simp add: ring_ok_def)
qed

lemma and_pow2_mask_id:
  assumes "unat (d :: u32) < 2 ^ k"
  shows "d AND (2 ^ k - 1) = d"
proof -
  have "unat (d AND (2 ^ k - 1)) = unat d"
    using assms by (simp add: unat_and_pow2_mask)
  then show ?thesis
    by (simp only: word_unat_eq_iff)
qed

lemma ring_count_ok:
  assumes "ring_ok r"
  shows "ring_count r = prod_tail r - cons_tail r"
proof -
  from assms obtain k where "prod_mask r = 2 ^ k - 1" "unat (prod_tail r - cons_tail r) < 2 ^ k"
    by (rule ring_okE)
  then show ?thesis
    by (simp add: ring_count_def Let_def and_pow2_mask_id)
qed

lemma ring_avail_ok:
  assumes "ring_ok r"
  shows "ring_avail r = prod_mask r + cons_tail r - prod_head r"
    and "unat (ring_avail r) + unat (prod_tail r - cons_tail r) = unat (prod_mask r)"
proof -
  have "ring_avail r = prod_mask r - ring_count r"
    using count_avail_word [of r] by (simp add: algebra_simps)
  moreover have "prod_head r = prod_tail r"
    using assms by (simp add: ring_ok_def)
  ultimately show "ring_avail r = prod_mask r + cons_tail r - prod_head r"
    using ring_count_ok [OF assms] by simp
  show "unat (ring_avail r) + unat (prod_tail r - cons_tail r) = unat (prod_mask r)"
    using count_avail_nat [of r] ring_count_ok [OF assms] by simp
qed

lemma unat_add_mod_pow2:
  assumes "k \<le> 32"
  shows "(unat (a + b :: u32) + j) mod 2 ^ k = (unat a + (unat b + j)) mod 2 ^ k"
proof -
  have dvd: "(2 :: nat) ^ k dvd 2 ^ 32"
    using assms by (rule le_imp_power_dvd)
  have "unat (a + b) = (unat a + unat b) mod 2 ^ 32"
    by (simp add: unat_word_ariths)
  then have "unat (a + b) mod 2 ^ k = (unat a + unat b) mod 2 ^ k"
    using dvd by (simp only: mod_mod_cancel)
  then have "(unat (a + b) + j) mod 2 ^ k = ((unat a + unat b) + j) mod 2 ^ k"
    by (rule mod_add_cong) simp
  then show ?thesis
    by (simp only: add.assoc)
qed

lemma take_as_map: "n \<le> length xs \<Longrightarrow> take n xs = map ((!) xs) [0..<n]"
proof -
  assume "n \<le> length xs"
  then have "take n (map ((!) xs) [0..<length xs]) = map ((!) xs) [0..<n]"
    by (simp only: take_map take_upt) simp
  then show ?thesis
    by (simp only: map_nth)
qed

lemma push_effect:
  assumes ok: "ring_ok r" and g: "g \<le> ring_avail r" and buf: "unat g \<le> length objs"
    and len: "length ring' = length (slots r)"
    and new: "\<forall>j<unat g. ring' ! unat ((prod_head r + of_nat j) AND prod_mask r) = objs ! j"
    and old: "\<forall>x. (\<forall>j<unat g. x \<noteq> unat ((prod_head r + of_nat j) AND prod_mask r))
                \<longrightarrow> ring' ! x = slots r ! x"
  defines "r' \<equiv> r\<lparr>prod_head := prod_head r + g, slots := ring', prod_tail := prod_tail r + g\<rparr>"
  shows "ring_ok r'" and "held r' = held r @ take (unat g) objs"
proof -
  from ok obtain k where k: "k < 32" "prod_size r = 2 ^ k" "cons_size r = 2 ^ k"
    "prod_mask r = 2 ^ k - 1" "length (slots r) = 2 ^ k"
    "prod_head r = prod_tail r" "cons_head r = cons_tail r"
    "unat (prod_tail r - cons_tail r) < 2 ^ k"
    by (rule ring_okE)
  let ?S = "(2 :: nat) ^ k"
  let ?d = "prod_tail r - cons_tail r"
  have k32: "k \<le> 32"
    using k(1) by simp
  have msk: "unat (prod_mask r) = ?S - 1"
    using k(1) by (simp add: k(4) unat_pow2_minus1)
  have "unat g \<le> unat (ring_avail r)"
    using g by (simp add: word_le_nat_alt)
  then have fit: "unat ?d + unat g \<le> ?S - 1"
    using ring_avail_ok(2) [OF ok] msk by simp
  then have sum: "unat (?d + g) = unat ?d + unat g"
    using k(8) unat_lt32 [of "prod_mask r"] msk by (simp add: unat_word_ariths)
  have d': "prod_tail r + g - cons_tail r = ?d + g"
    by simp
  have "?d + g \<le> prod_mask r"
    using fit by (simp add: word_le_nat_alt sum msk)
  then show "ring_ok r'"
    using ok len by (simp add: ring_ok_def r'_def d')
  have ix: "unat ((h + of_nat j) AND prod_mask r) = (unat h + j) mod ?S" for h j
    unfolding k(4) using k32 by (rule slot_index)
  have head: "prod_head r = cons_tail r + ?d"
    by (simp add: k(6))
  have hx: "(unat (prod_head r) + j) mod ?S = (unat (cons_tail r) + (unat ?d + j)) mod ?S" for j
    unfolding head using k32 by (rule unat_add_mod_pow2)
  have kept: "ring' ! ((unat (cons_tail r) + j) mod ?S) = slots r ! ((unat (cons_tail r) + j) mod ?S)"
    if "j < unat ?d" for j
  proof -
    have "(unat (cons_tail r) + j) mod ?S \<noteq> (unat (prod_head r) + i) mod ?S" if "i < unat g" for i
    proof
      assume "(unat (cons_tail r) + j) mod ?S = (unat (prod_head r) + i) mod ?S"
      then have "(unat (cons_tail r) + j) mod ?S = (unat (cons_tail r) + (unat ?d + i)) mod ?S"
        by (simp only: hx)
      moreover have "j < ?S" and "unat ?d + i < ?S"
        using \<open>j < unat ?d\<close> that fit by simp_all
      ultimately have "j = unat ?d + i"
        by (intro mod_shift_inj [of j ?S "unat ?d + i" "unat (cons_tail r)"])
      then show False
        using \<open>j < unat ?d\<close> by simp
    qed
    then show ?thesis
      using old by (simp add: ix)
  qed
  have added: "ring' ! ((unat (cons_tail r) + j) mod ?S) = objs ! (j - unat ?d)"
    if "unat ?d \<le> j" and "j < unat ?d + unat g" for j
  proof -
    have "unat ?d + (j - unat ?d) = j"
      using that(1) by simp
    then have "(unat (prod_head r) + (j - unat ?d)) mod ?S = (unat (cons_tail r) + j) mod ?S"
      by (simp only: hx)
    moreover have "j - unat ?d < unat g"
      using that by simp
    ultimately show ?thesis
      using new by (metis ix)
  qed
  show "held r' = held r @ take (unat g) objs"
  proof (rule nth_equalityI)
    show "length (held r') = length (held r @ take (unat g) objs)"
      using buf by (simp add: held_def r'_def d' sum)
  next
    fix j
    assume "j < length (held r')"
    then have j: "j < unat ?d + unat g"
      by (simp add: held_def r'_def d' sum)
    have l: "held r' ! j = ring' ! ((unat (cons_tail r) + j) mod ?S)"
      using j by (simp add: held_def r'_def d' sum ix)
    show "held r' ! j = (held r @ take (unat g) objs) ! j"
    proof (cases "j < unat ?d")
      case True
      then show ?thesis
        using kept [OF True] l by (simp add: nth_append held_def ix)
    next
      case False
      then have "unat ?d \<le> j"
        by simp
      from added [OF this j] show ?thesis
        using False j l by (simp add: nth_append held_def)
    qed
  qed
qed

lemma ring_sp_push_ok:
  fixes b :: int
  assumes ok: "ring_ok r" and buf: "unat n \<le> length objs"
  defines "g \<equiv> (if n \<le> ring_avail r then n else if b = RING_B_FIXED then 0 else ring_avail r)"
  shows "\<exists>ring'. ring_sp_push r objs n b
            = Inr (g, r\<lparr>prod_head := prod_head r + g, slots := ring', prod_tail := prod_tail r + g\<rparr>)
          \<and> length ring' = length (slots r)
          \<and> (\<forall>j<unat g. ring' ! unat ((prod_head r + of_nat j) AND prod_mask r) = objs ! j)
          \<and> (\<forall>x. (\<forall>j<unat g. x \<noteq> unat ((prod_head r + of_nat j) AND prod_mask r))
                \<longrightarrow> ring' ! x = slots r ! x)"
proof -
  from ok obtain k where k: "k < 32" "prod_size r = 2 ^ k" "cons_size r = 2 ^ k"
    "prod_mask r = 2 ^ k - 1" "length (slots r) = 2 ^ k"
    "prod_head r = prod_tail r" "cons_head r = cons_tail r"
    "unat (prod_tail r - cons_tail r) < 2 ^ k"
    by (rule ring_okE)
  let ?avail = "prod_mask r + cons_tail r - prod_head r"
  have av: "ring_avail r = ?avail"
    using ok by (rule ring_avail_ok(1))
  have adj: "adjust_n n ?avail b = (if ?avail < n \<and> g = 0 then None else Some g)"
    by (auto simp add: adjust_n_def g_def av not_le)
  show ?thesis
  proof (cases "?avail < n \<and> g = 0")
    case True
    then have "ring_sp_push r objs n b = Inr (g, r)"
      using adj by (simp add: ring_sp_push_def Let_def)
    moreover have "r\<lparr>prod_head := prod_head r + g, slots := slots r, prod_tail := prod_tail r + g\<rparr> = r"
      using True by simp
    ultimately show ?thesis
      using True by (intro exI [of _ "slots r"]) simp
  next
    case False
    then have some: "adjust_n n ?avail b = Some g"
      using adj by simp
    have "g \<le> ring_avail r"
      by (simp add: g_def)
    then have "unat g \<le> unat (ring_avail r)"
      by (simp only: word_le_nat_alt)
    moreover have "unat (prod_mask r) = 2 ^ k - 1"
      using k(1) by (simp add: k(4) unat_pow2_minus1)
    moreover have "(0 :: nat) < 2 ^ k"
      by simp
    ultimately have g_lt: "unat g < 2 ^ k"
      using ring_avail_ok(2) [OF ok] by linarith
    have "g \<le> n"
      by (auto simp add: g_def not_le intro: less_imp_le)
    then have g_buf: "unat g \<le> length objs"
      using buf by (simp add: word_le_nat_alt)
    let ?r1 = "r\<lparr>prod_head := prod_head r + g\<rparr>"
    have "prod_size ?r1 = 2 ^ k" and "length (slots ?r1) = 2 ^ k"
      using k by simp_all
    from PUSH_PTRS_result [OF k(1) this g_lt g_buf, of "prod_head r"]
    obtain ring' where ring':
      "PUSH_PTRS ?r1 (prod_head r) (2 ^ k - 1) g objs = Inr (?r1\<lparr>slots := ring'\<rparr>)"
      "length ring' = 2 ^ k"
      "\<forall>j<unat g. ring' ! ((unat (prod_head r) + j) mod 2 ^ k) = objs ! j"
      "\<forall>x. (\<forall>j<unat g. x \<noteq> (unat (prod_head r) + j) mod 2 ^ k) \<longrightarrow> ring' ! x = slots r ! x"
      by auto
    have ix: "unat ((h + of_nat j) AND prod_mask r) = (unat h + j) mod 2 ^ k" for h j
      unfolding k(4) using k(1) by (intro slot_index) simp
    have "ring_sp_push r objs n b
        = Inr (g, r\<lparr>prod_head := prod_head r + g, slots := ring', prod_tail := prod_tail r + g\<rparr>)"
      using some ring'(1) by (simp add: ring_sp_push_def Let_def k(4) k(6))
    then show ?thesis
      using ring'(2,3,4) k(5) by (intro exI [of _ ring']) (simp add: ix)
  qed
qed

lemma pop_effect:
  assumes ok: "ring_ok r" and g: "g \<le> ring_count r"
  defines "r' \<equiv> r\<lparr>cons_head := cons_head r + g, cons_tail := cons_tail r + g\<rparr>"
  shows "ring_ok r'"
    and "held r = map (\<lambda>j. slots r ! unat ((cons_head r + of_nat j) AND prod_mask r)) [0..<unat g]
                  @ held r'"
proof -
  from ok obtain k where k: "k < 32" "prod_size r = 2 ^ k" "cons_size r = 2 ^ k"
    "prod_mask r = 2 ^ k - 1" "length (slots r) = 2 ^ k"
    "prod_head r = prod_tail r" "cons_head r = cons_tail r"
    "unat (prod_tail r - cons_tail r) < 2 ^ k"
    by (rule ring_okE)
  let ?S = "(2 :: nat) ^ k"
  let ?d = "prod_tail r - cons_tail r"
  have k32: "k \<le> 32"
    using k(1) by simp
  have gd: "g \<le> ?d"
    using g ring_count_ok [OF ok] by simp
  then have g_le: "unat g \<le> unat ?d"
    by (simp only: word_le_nat_alt)
  have d': "prod_tail r - (cons_tail r + g) = ?d - g"
    by simp
  have diff: "unat (?d - g) = unat ?d - unat g"
    using gd by (rule unat_sub)
  have "?d \<le> prod_mask r"
    using ok unfolding ring_ok_def by blast
  then have "unat (?d - g) \<le> unat (prod_mask r)"
    using diff by (simp add: word_le_nat_alt)
  then have "?d - g \<le> prod_mask r"
    by (simp only: word_le_nat_alt)
  then show "ring_ok r'"
    using ok by (simp add: ring_ok_def r'_def d' k(7))
  have ix: "unat ((h + of_nat j) AND prod_mask r) = (unat h + j) mod ?S" for h j
    unfolding k(4) using k32 by (rule slot_index)
  have shift: "(unat (cons_tail r + g) + j) mod ?S = (unat (cons_tail r) + (unat g + j)) mod ?S" for j
    using k32 by (rule unat_add_mod_pow2)
  let ?f = "\<lambda>j. slots r ! ((unat (cons_tail r) + j) mod ?S)"
  have "held r = map ?f [0..<unat ?d]"
    by (simp add: held_def ix)
  also have "[0..<unat ?d] = [0..<unat g] @ [unat g..<unat g + (unat ?d - unat g)]"
    using g_le upt_add_eq_append [of 0 "unat g" "unat ?d - unat g"] by simp
  also have "map ?f \<dots> = map ?f [0..<unat g] @ map (\<lambda>j. ?f (unat g + j)) [0..<unat ?d - unat g]"
    using map_add_upt [of "unat g" "unat ?d - unat g"]
    by (simp add: add.commute flip: map_map [of ?f "\<lambda>j. j + unat g", unfolded comp_def])
  also have "map (\<lambda>j. ?f (unat g + j)) [0..<unat ?d - unat g] = held r'"
    by (simp add: held_def r'_def d' diff ix shift)
  finally show "held r = map (\<lambda>j. slots r ! unat ((cons_head r + of_nat j) AND prod_mask r)) [0..<unat g]
                  @ held r'"
    by (simp add: ix k(7))
qed

lemma ring_sc_pop_ok:
  fixes b :: int
  assumes ok: "ring_ok r" and buf: "unat n \<le> length objs"
  defines "g \<equiv> (if n \<le> ring_count r then n else if b = RING_B_FIXED then 0 else ring_count r)"
  shows "ring_sc_pop r objs n b
      = Inr (g, r\<lparr>cons_head := cons_head r + g, cons_tail := cons_tail r + g\<rparr>,
             map (\<lambda>j. slots r ! unat ((cons_head r + of_nat j) AND prod_mask r)) [0..<unat g]
             @ drop (unat g) objs)"
proof -
  from ok obtain k where k: "k < 32" "prod_size r = 2 ^ k" "cons_size r = 2 ^ k"
    "prod_mask r = 2 ^ k - 1" "length (slots r) = 2 ^ k"
    "prod_head r = prod_tail r" "cons_head r = cons_tail r"
    "unat (prod_tail r - cons_tail r) < 2 ^ k"
    by (rule ring_okE)
  let ?avail = "prod_tail r - cons_head r"
  have cnt: "ring_count r = ?avail"
    using ring_count_ok [OF ok] k(7) by simp
  have adj: "adjust_n n ?avail b = (if ?avail < n \<and> g = 0 then None else Some g)"
    by (auto simp add: adjust_n_def g_def cnt not_le)
  show ?thesis
  proof (cases "?avail < n \<and> g = 0")
    case True
    then have "ring_sc_pop r objs n b = Inr (g, r, objs)"
      using adj by (simp add: ring_sc_pop_def Let_def)
    moreover have "r\<lparr>cons_head := cons_head r + g, cons_tail := cons_tail r + g\<rparr> = r"
      using True by simp
    ultimately show ?thesis
      using True by simp
  next
    case False
    then have some: "adjust_n n ?avail b = Some g"
      using adj by simp
    have "g \<le> ring_count r"
      by (simp add: g_def)
    then have "unat g \<le> unat ?avail"
      by (simp only: word_le_nat_alt cnt)
    then have g_lt: "unat g < 2 ^ k"
      using k(8) k(7) by simp
    have "g \<le> n"
      by (auto simp add: g_def not_le intro: less_imp_le)
    then have g_buf: "unat g \<le> length objs"
      using buf by (simp add: word_le_nat_alt)
    let ?r1 = "r\<lparr>cons_head := cons_head r + g\<rparr>"
    have "cons_size ?r1 = 2 ^ k" and "length (slots ?r1) = 2 ^ k"
      using k by simp_all
    from POP_PTRS_result [OF k(1) this g_lt g_buf, of "cons_head r"]
    have pop: "POP_PTRS ?r1 (cons_head r) (2 ^ k - 1) g objs
        = Inr (map (\<lambda>j. slots r ! ((unat (cons_head r) + j) mod 2 ^ k)) [0..<unat g]
               @ drop (unat g) objs)"
      by simp
    have ix: "unat ((h + of_nat j) AND (2 ^ k - 1) :: u32) = (unat h + j) mod 2 ^ k" for h j
      using k(1) by (intro slot_index) simp
    show ?thesis
      using some pop by (simp add: ring_sc_pop_def Let_def k(4) k(7) ix)
  qed
qed

lemma sp_push_summary:
  fixes b :: int
  assumes ok: "ring_ok r" and buf: "unat n \<le> length objs"
  defines "g \<equiv> (if n \<le> ring_avail r then n else if b = RING_B_FIXED then 0 else ring_avail r)"
  shows "\<exists>r'. ring_sp_push r objs n b = Inr (g, r')
          \<and> ring_ok r'
          \<and> held r' = held r @ take (unat g) objs
          \<and> (\<forall>j<unat g. slots r' ! unat ((prod_head r + of_nat j) AND prod_mask r) = objs ! j)
          \<and> prod_tail r' = prod_tail r + g \<and> cons_tail r' = cons_tail r
          \<and> prod_size r' = prod_size r \<and> prod_mask r' = prod_mask r
          \<and> prod_sp r' = prod_sp r \<and> cons_sc r' = cons_sc r
          \<and> (g = 0 \<longrightarrow> r' = r)"
proof -
  from ring_sp_push_ok [OF ok buf, of b]
  obtain ring' where ring':
    "ring_sp_push r objs n b
       = Inr (g, r\<lparr>prod_head := prod_head r + g, slots := ring', prod_tail := prod_tail r + g\<rparr>)"
    "length ring' = length (slots r)"
    "\<forall>j<unat g. ring' ! unat ((prod_head r + of_nat j) AND prod_mask r) = objs ! j"
    "\<forall>x. (\<forall>j<unat g. x \<noteq> unat ((prod_head r + of_nat j) AND prod_mask r))
        \<longrightarrow> ring' ! x = slots r ! x"
    unfolding g_def by (elim exE conjE)
  let ?r' = "r\<lparr>prod_head := prod_head r + g, slots := ring', prod_tail := prod_tail r + g\<rparr>"
  have g_av: "g \<le> ring_avail r"
    by (simp add: g_def)
  have "g \<le> n"
    by (auto simp add: g_def not_le intro: less_imp_le)
  then have g_buf: "unat g \<le> length objs"
    using buf by (simp add: word_le_nat_alt)
  note eff = push_effect [OF ok g_av g_buf ring'(2,3,4)]
  have same: "?r' = r" if "g = 0"
  proof -
    have "ring' = slots r"
      using ring'(2,4) that by (intro nth_equalityI) simp_all
    then show ?thesis
      using that by simp
  qed
  show ?thesis
    using ring'(1,3) eff same by (intro exI [of _ ?r']) simp
qed

lemma sc_pop_summary:
  fixes b :: int
  assumes ok: "ring_ok r" and buf: "unat n \<le> length objs"
  defines "g \<equiv> (if n \<le> ring_count r then n else if b = RING_B_FIXED then 0 else ring_count r)"
  shows "\<exists>r' objs'. ring_sc_pop r objs n b = Inr (g, r', objs')
          \<and> ring_ok r'
          \<and> held r = take (unat g) objs' @ held r'
          \<and> length objs' = length objs
          \<and> (\<forall>j<unat g. objs' ! j = slots r ! unat ((cons_head r + of_nat j) AND prod_mask r))
          \<and> drop (unat g) objs' = drop (unat g) objs
          \<and> r' = r\<lparr>cons_head := cons_head r + g, cons_tail := cons_tail r + g\<rparr>
          \<and> (g = 0 \<longrightarrow> r' = r \<and> objs' = objs)"
proof -
  let ?r' = "r\<lparr>cons_head := cons_head r + g, cons_tail := cons_tail r + g\<rparr>"
  let ?got = "map (\<lambda>j. slots r ! unat ((cons_head r + of_nat j) AND prod_mask r)) [0..<unat g]"
  let ?objs' = "?got @ drop (unat g) objs"
  have res: "ring_sc_pop r objs n b = Inr (g, ?r', ?objs')"
    using ring_sc_pop_ok [OF ok buf, of b] by (simp only: g_def)
  have g_cnt: "g \<le> ring_count r"
    by (simp add: g_def)
  have "g \<le> n"
    by (auto simp add: g_def not_le intro: less_imp_le)
  then have g_buf: "unat g \<le> length objs"
    using buf by (simp add: word_le_nat_alt)
  note eff = pop_effect [OF ok g_cnt]
  have "take (unat g) ?objs' = ?got"
    by simp
  then have h: "held r = take (unat g) ?objs' @ held ?r'"
    using eff(2) by simp
  have nth: "\<forall>j<unat g. ?objs' ! j = slots r ! unat ((cons_head r + of_nat j) AND prod_mask r)"
    by (simp add: nth_append)
  have "?r' = r \<and> ?objs' = objs" if "g = 0"
    using that by simp
  then show ?thesis
    using res eff(1) h nth g_buf by (intro exI [of _ ?r'] exI [of _ ?objs']) simp
qed

lemma mp_push_is_sp: "ring_ok r \<Longrightarrow> ring_mp_push r objs n b = ring_sp_push r objs n b"
  by (intro ring_mp_push_eq) (simp add: ring_ok_def)

lemma mc_pop_is_sc: "ring_ok r \<Longrightarrow> ring_mc_pop r objs n b = ring_sc_pop r objs n b"
  by (intro ring_mc_pop_eq) (simp add: ring_ok_def)

lemma push_is_sp: "ring_ok r \<Longrightarrow> ring_push r objs n b = ring_sp_push r objs n b"
  by (intro ring_push_eq) (simp add: ring_ok_def)

lemma pop_is_sc: "ring_ok r \<Longrightarrow> ring_pop r objs n b = ring_sc_pop r objs n b"
  by (intro ring_pop_eq) (simp add: ring_ok_def)

section \<open>Runs of calls\<close>

lemma ring_init_ok:
  assumes "k < 32" and "length (slots r0) = 2 ^ k"
  shows "ring_ok (ring_init r0 (2 ^ k) flags)"
  using assms by (auto simp add: ring_ok_def ring_init_def unat_pow2)

lemma held_ring_init: "held (ring_init r0 count flags) = []"
  by (simp add: held_def ring_init_def)

lemma step_inv:
  assumes ok: "ring_ok r" and c: "call_ok c" and log: "pushed = popped @ held r"
  shows "\<exists>r' pushed' popped'. step (r, pushed, popped) c = Inr (r', pushed', popped')
          \<and> ring_ok r' \<and> pushed' = popped' @ held r'
          \<and> prod_size r' = prod_size r \<and> prod_sp r' = prod_sp r \<and> cons_sc r' = cons_sc r"
proof (cases c)
  case (Push objs n b)
  then have "unat n \<le> length objs"
    using c by simp
  from sp_push_summary [OF ok this, of b]
  obtain g r' where p: "ring_sp_push r objs n b = Inr (g, r')" "ring_ok r'"
    "held r' = held r @ take (unat g) objs" "prod_size r' = prod_size r"
    "prod_sp r' = prod_sp r" "cons_sc r' = cons_sc r"
    by (elim exE conjE)
  have "step (r, pushed, popped) c = Inr (r', pushed @ take (unat g) objs, popped)"
    by (simp add: Push push_is_sp [OF ok] p(1))
  then show ?thesis
    using p log by (intro exI [of _ r'] exI [of _ "pushed @ take (unat g) objs"] exI [of _ popped])
      simp
next
  case (Pop objs n b)
  then have "unat n \<le> length objs"
    using c by simp
  from sc_pop_summary [OF ok this, of b]
  obtain g r' objs' where p: "ring_sc_pop r objs n b = Inr (g, r', objs')" "ring_ok r'"
    "held r = take (unat g) objs' @ held r'"
    "r' = r\<lparr>cons_head := cons_head r + g, cons_tail := cons_tail r + g\<rparr>"
    by (elim exE conjE)
  have "step (r, pushed, popped) c = Inr (r', pushed, popped @ take (unat g) objs')"
    by (simp add: Pop pop_is_sc [OF ok] p(1))
  moreover have "prod_size r' = prod_size r" "prod_sp r' = prod_sp r" "cons_sc r' = cons_sc r"
    by (simp_all add: p(4))
  ultimately show ?thesis
    using p(2,3) log
    by (intro exI [of _ r'] exI [of _ pushed] exI [of _ "popped @ take (unat g) objs'"]) simp
qed

lemma run_inv:
  assumes "ring_ok r" and "list_all call_ok cs" and "pushed = popped @ held r"
  shows "\<exists>r' pushed' popped'. run (r, pushed, popped) cs = Inr (r', pushed', popped')
          \<and> ring_ok r' \<and> pushed' = popped' @ held r'
          \<and> prod_size r' = prod_size r \<and> prod_sp r' = prod_sp r \<and> cons_sc r' = cons_sc r"
  using assms
proof (induction cs arbitrary: r pushed popped)
  case Nil
  then show ?case
    by simp
next
  case (Cons c cs)
  then have "call_ok c" and rest: "list_all call_ok cs"
    by simp_all
  from step_inv [OF Cons.prems(1) this(1) Cons.prems(3)]
  obtain r1 pushed1 popped1 where s:
    "step (r, pushed, popped) c = Inr (r1, pushed1, popped1)" "ring_ok r1"
    "pushed1 = popped1 @ held r1" "prod_size r1 = prod_size r" "prod_sp r1 = prod_sp r"
    "cons_sc r1 = cons_sc r"
    by (elim exE conjE)
  from Cons.IH [OF s(2) rest s(3)]
  obtain r2 pushed2 popped2 where t:
    "run (r1, pushed1, popped1) cs = Inr (r2, pushed2, popped2)" "ring_ok r2"
    "pushed2 = popped2 @ held r2" "prod_size r2 = prod_size r1" "prod_sp r2 = prod_sp r1"
    "cons_sc r2 = cons_sc r1"
    by (elim exE conjE)
  have "run (r, pushed, popped) (c # cs) = Inr (r2, pushed2, popped2)"
    by (simp add: s(1) t(1))
  then show ?case
    using t(2,3,4,5,6) s(4,5,6)
    by (intro exI [of _ r2] exI [of _ pushed2] exI [of _ popped2]) simp
qed

lemma COPY_PTRS_zero: "COPY_PTRS mv rsize idx 0 st = Inr st"
proof -
  have a: "unrolled_loop mv 0 0 idx st = Inr (0, idx, st)"
    by (subst unrolled_loop.simps) simp
  have b: "switch_rest mv 0 0 idx st = Inr st"
    by (simp add: switch_rest_def)
  have c: "loop_to_end mv rsize 0 idx st = Inr (0, st)" if "\<not> idx < rsize"
    using that by (subst loop_to_end.simps) simp
  have d: "loop_from_start mv 0 0 0 st = Inr st"
    by (subst loop_from_start.simps) simp
  show ?thesis
    by (simp add: COPY_PTRS_def a b c d)
qed

lemma sp_push_zero:
  assumes "prod_head r = prod_tail r"
  shows "ring_sp_push r objs 0 b = Inr (0, r)"
proof -
  have "adjust_n 0 avail b = Some 0" for avail
    by (simp add: adjust_n_def)
  then show ?thesis
    using assms by (simp add: ring_sp_push_def Let_def PUSH_PTRS_def COPY_PTRS_zero)
qed

lemma sc_pop_zero:
  assumes "cons_head r = cons_tail r"
  shows "ring_sc_pop r objs 0 b = Inr (0, r, objs)"
proof -
  have "adjust_n 0 avail b = Some 0" for avail
    by (simp add: adjust_n_def)
  then show ?thesis
    using assms by (simp add: ring_sc_pop_def Let_def POP_PTRS_def COPY_PTRS_zero)
qed

lemma sp_push_heads:
  assumes "ring_sp_push r objs n b = Inr (ret, r')"
  shows "prod_head r' = prod_tail r' \<or> r' = r" and "cons_head r' = cons_head r"
    and "cons_tail r' = cons_tail r"
proof -
  let ?avail = "prod_mask r + cons_tail r - prod_head r"
  have "(prod_head r' = prod_tail r' \<or> r' = r) \<and> cons_head r' = cons_head r
      \<and> cons_tail r' = cons_tail r"
  proof (cases "adjust_n n ?avail b")
    case None
    then show ?thesis
      using assms by (simp add: ring_sp_push_def Let_def)
  next
    case (Some m)
    let ?r1 = "r\<lparr>prod_head := prod_head r + m\<rparr>"
    from assms Some obtain r2 where r2: "PUSH_PTRS ?r1 (prod_head r) (prod_mask r) m objs = Inr r2"
      and r': "r' = r2\<lparr>prod_tail := prod_head r + m\<rparr>"
      by (auto simp add: ring_sp_push_def Let_def split: sum.splits)
    from r2 obtain ring' where "r2 = ?r1\<lparr>slots := ring'\<rparr>"
      by (auto simp add: PUSH_PTRS_def Let_def split: sum.splits)
    then show ?thesis
      using r' by simp
  qed
  then show "prod_head r' = prod_tail r' \<or> r' = r" and "cons_head r' = cons_head r"
    and "cons_tail r' = cons_tail r"
    by simp_all
qed

lemma sc_pop_heads:
  assumes "ring_sc_pop r objs n b = Inr (ret, r', objs')"
  shows "cons_head r' = cons_tail r' \<or> r' = r" and "prod_head r' = prod_head r"
    and "prod_tail r' = prod_tail r"
  using assms by (auto simp add: ring_sc_pop_def Let_def split: option.splits sum.splits)

lemma length_held: "ring_ok r \<Longrightarrow> length (held r) = unat (ring_count r)"
  by (simp add: held_def ring_count_ok)

lemma init_flags:
  "prod_sp (ring_init r0 count flags) = (if flags AND RING_F_SP \<noteq> 0 then 1 else 0)"
  "cons_sc (ring_init r0 count flags) = (if flags AND RING_F_SC \<noteq> 0 then 1 else 0)"
  "prod_size (ring_init r0 count flags) = count"
  by (simp_all add: ring_init_def)

lemma drain:
  assumes ok: "ring_ok r" and buf: "length (held r) \<le> length buf"
  shows "\<exists>r'. ring_sc_pop r buf (ring_count r) RING_B_FIXED
            = Inr (ring_count r, r', held r @ drop (length (held r)) buf)
          \<and> held r' = []"
proof -
  have n: "unat (ring_count r) \<le> length buf"
    using buf by (simp add: length_held [OF ok])
  define g where "g = (if ring_count r \<le> ring_count r then ring_count r
                       else if RING_B_FIXED = RING_B_FIXED then 0 else ring_count r)"
  have g: "g = ring_count r"
    by (simp add: g_def)
  from sc_pop_summary [OF ok n, of RING_B_FIXED, folded g_def, unfolded g]
  obtain r' objs' where p:
    "ring_sc_pop r buf (ring_count r) RING_B_FIXED = Inr (ring_count r, r', objs')"
    "held r = take (unat (ring_count r)) objs' @ held r'"
    "length objs' = length buf"
    "drop (unat (ring_count r)) objs' = drop (unat (ring_count r)) buf"
    by (elim exE conjE)
  have "length (take (unat (ring_count r)) objs') = length (held r)"
    using n p(3) by (simp add: length_held [OF ok])
  then have e: "held r' = []" and t: "take (unat (ring_count r)) objs' = held r"
    using p(2) by (metis append_self_conv length_append add_cancel_right_right length_0_conv)+
  have "objs' = take (unat (ring_count r)) objs' @ drop (unat (ring_count r)) objs'"
    by simp
  then have "objs' = held r @ drop (length (held r)) buf"
    by (simp only: t p(4) length_held [OF ok])
  then show ?thesis
    using p(1) e by (intro exI [of _ r']) simp
qed

section \<open>The sizing test\<close>

lemma pow2_nat:
  fixes n :: nat
  assumes "0 < n" and "(n - 1) AND n = 0"
  shows "\<exists>k. n = 2 ^ k"
  using assms
proof (induction n rule: less_induct)
  case (less n)
  show ?case
  proof (cases "even n")
    case True
    then obtain m where m: "n = 2 * m"
      by (elim evenE)
    then have pos: "0 < m"
      using less.prems(1) by simp
    have "(n - 1) div 2 = m - 1"
      using m pos by (simp add: algebra_simps)
    moreover have "(n - 1) AND n = of_bool (odd (n - 1) \<and> odd n) + 2 * (((n - 1) div 2) AND (n div 2))"
      by (rule and_rec)
    ultimately have "(m - 1) AND m = 0"
      using less.prems(2) m True by simp
    moreover have "m < n"
      using m pos by simp
    ultimately obtain k where "m = 2 ^ k"
      using less.IH [of m] pos by blast
    then have "n = 2 ^ Suc k"
      using m by simp
    then show ?thesis
      by blast
  next
    case False
    then obtain m where m: "n = 2 * m + 1"
      by (elim oddE)
    have "(n - 1) AND n = of_bool (odd (n - 1) \<and> odd n) + 2 * (((n - 1) div 2) AND (n div 2))"
      by (rule and_rec)
    then have "m = 0"
      using less.prems(2) m by simp
    then have "n = 2 ^ 0"
      using m by simp
    then show ?thesis
      by blast
  qed
qed

lemma POWEROF2_iff: "POWEROF2 x \<longleftrightarrow> x = 0 \<or> (\<exists>k<32. x = 2 ^ k)"
proof
  assume p: "POWEROF2 x"
  show "x = 0 \<or> (\<exists>k<32. x = 2 ^ k)"
  proof (cases "x = 0")
    case True
    then show ?thesis
      by simp
  next
    case False
    then have pos: "0 < unat x"
      by (simp add: unat_gt_0)
    have "unat ((x - 1) AND x) = unat (x - 1) AND unat x"
      by (rule unsigned_and_eq)
    moreover have "unat (x - 1) = unat x - 1"
      using False by (rule unat_minus_one)
    ultimately have "(unat x - 1) AND unat x = 0"
      using p by (simp add: POWEROF2_def)
    with pos obtain k where k: "unat x = 2 ^ k"
      using pow2_nat by blast
    have "(2 :: nat) ^ k < 2 ^ 32"
      using unat_lt32 [of x] k by simp
    then have k32: "k < 32"
      by (simp only: power_strict_increasing_iff)
    then have "unat x = unat (2 ^ k :: u32)"
      using k by (simp add: unat_pow2)
    then have "x = 2 ^ k"
      by (simp only: word_unat_eq_iff)
    then show ?thesis
      using k32 by blast
  qed
next
  assume "x = 0 \<or> (\<exists>k<32. x = 2 ^ k)"
  then show "POWEROF2 x"
  proof
    assume "x = 0"
    then show ?thesis
      by (simp add: POWEROF2_def)
  next
    assume "\<exists>k<32. x = 2 ^ k"
    then obtain k where k: "k < 32" "x = 2 ^ k"
      by blast
    have "(2 ^ k :: u32) AND (2 ^ k - 1) = take_bit k (2 ^ k)"
      by (simp only: take_bit_eq_mask mask_eq_exp_minus_1)
    also have "\<dots> = 0"
      by (simp only: take_bit_eq_0_iff) simp
    finally have "(2 ^ k - 1) AND (2 ^ k :: u32) = 0"
      by (simp only: and.commute)
    then show ?thesis
      by (simp add: POWEROF2_def k(2))
  qed
qed

lemma ring_memsize_nonzero_count:
  assumes "count \<noteq> 0"
  shows "ring_memsize sizeof_ring sizeof_ptr count =
     (if (\<exists>k<32. count = 2 ^ k) \<and> count \<le> 0x0FFFFFFF
      then word_of_nat (sizeof_ring + unat count * sizeof_ptr) else 0)"
proof (cases "(\<exists>k<32. count = 2 ^ k) \<and> count \<le> 0x0FFFFFFF")
  case True
  then have "POWEROF2 count" and "\<not> count > RING_SIZE_MASK"
    by (simp_all only: POWEROF2_iff RING_SIZE_MASK_def not_less) simp_all
  then show ?thesis
    using True by (simp only: ring_memsize_def) simp
next
  case False
  then have "\<not> POWEROF2 count \<or> count > RING_SIZE_MASK"
    using assms by (simp only: POWEROF2_iff RING_SIZE_MASK_def) auto
  then show ?thesis
    using False by (simp only: ring_memsize_def) simp
qed

section \<open>Claims\<close>

text \<open>
  C1. \<^verbatim>\<open>ring_memsize(count)\<close> is to return 0 for every count that is not a power of two,
  and the claim names \<open>count = 0\<close>. The macro \<^verbatim>\<open>POWEROF2\<close> accepts 0, so for
  \<open>count = 0\<close> the function returns the size of the header instead of 0: 128 where the
  header takes 128 bytes and a pointer 8. For every other count the function returns what
  the claim says (\<open>ring_memsize_nonzero_count\<close>).
\<close>

theorem ring_memsize_zero_count:
  "POWEROF2 0 \<and> ring_memsize sizeof_ring sizeof_ptr 0 = word_of_nat sizeof_ring"
  by (simp add: POWEROF2_def ring_memsize_def RING_SIZE_MASK_def)

theorem ring_memsize_zero_count_witness:
  "ring_memsize 128 8 0 = 128 \<and> ring_memsize 128 8 0 \<noteq> 0"
  using ring_memsize_zero_count [of 128 8] by simp

text \<open>
  C2. On a well-formed ring between two operations, a push or pop with behaviour
  \<open>RING_B_FIXED\<close>, on the single path, on the multi path or through the dispatcher,
  either returns the requested \<open>n\<close> and moves exactly \<open>n\<close> handles (a push appends the
  first \<open>n\<close> entries of the buffer to the handles held, at the slots from \<open>prod.head\<close> on;
  a pop takes the \<open>n\<close> oldest handles held into the first \<open>n\<close> entries of the buffer and
  changes nothing but \<open>cons.head\<close> and \<open>cons.tail\<close>), or returns 0 and leaves the ring,
  and for a pop the buffer, as they were. The first happens when \<open>n\<close> is at most the free
  capacity (for a pop: the number of handles held), the second otherwise.
\<close>

theorem fixed_all_or_nothing:
  assumes ok: "ring_ok r" and buf: "unat n \<le> length objs"
  shows "(\<forall>push\<in>{ring_sp_push, ring_mp_push, ring_push}.
            (n \<le> ring_avail r \<and>
             (\<exists>r'. push r objs n RING_B_FIXED = Inr (n, r')
                \<and> held r' = held r @ take (unat n) objs
                \<and> (\<forall>j<unat n. slots r' ! unat ((prod_head r + of_nat j) AND prod_mask r) = objs ! j)
                \<and> prod_tail r' = prod_tail r + n \<and> cons_tail r' = cons_tail r))
          \<or> (ring_avail r < n \<and> push r objs n RING_B_FIXED = Inr (0, r)))
       \<and> (\<forall>pop\<in>{ring_sc_pop, ring_mc_pop, ring_pop}.
            (n \<le> ring_count r \<and>
             (\<exists>r' objs'. pop r objs n RING_B_FIXED = Inr (n, r', objs')
                \<and> held r = take (unat n) objs' @ held r'
                \<and> (\<forall>j<unat n. objs' ! j = slots r ! unat ((cons_head r + of_nat j) AND prod_mask r))
                \<and> drop (unat n) objs' = drop (unat n) objs
                \<and> r' = r\<lparr>cons_head := cons_head r + n, cons_tail := cons_tail r + n\<rparr>))
          \<or> (ring_count r < n \<and> pop r objs n RING_B_FIXED = Inr (0, r, objs)))"
proof -
  define gp where "gp = (if n \<le> ring_avail r then n
                         else if RING_B_FIXED = RING_B_FIXED then 0 else ring_avail r)"
  from sp_push_summary [OF ok buf, of RING_B_FIXED, folded gp_def]
  obtain r1 where p: "ring_sp_push r objs n RING_B_FIXED = Inr (gp, r1)"
    "held r1 = held r @ take (unat gp) objs"
    "\<forall>j<unat gp. slots r1 ! unat ((prod_head r + of_nat j) AND prod_mask r) = objs ! j"
    "prod_tail r1 = prod_tail r + gp" "cons_tail r1 = cons_tail r" "gp = 0 \<longrightarrow> r1 = r"
    by (elim exE conjE)
  have push: "(n \<le> ring_avail r \<and>
             (\<exists>r'. ring_sp_push r objs n RING_B_FIXED = Inr (n, r')
                \<and> held r' = held r @ take (unat n) objs
                \<and> (\<forall>j<unat n. slots r' ! unat ((prod_head r + of_nat j) AND prod_mask r) = objs ! j)
                \<and> prod_tail r' = prod_tail r + n \<and> cons_tail r' = cons_tail r))
          \<or> (ring_avail r < n \<and> ring_sp_push r objs n RING_B_FIXED = Inr (0, r))"
  proof (cases "n \<le> ring_avail r")
    case True
    then have "gp = n"
      by (simp add: gp_def)
    then show ?thesis
      using True p by (intro disjI1 conjI exI [of _ r1]) simp_all
  next
    case False
    then have "gp = 0"
      by (simp add: gp_def)
    then show ?thesis
      using False p(1,6) by (intro disjI2) simp
  qed
  define gc where "gc = (if n \<le> ring_count r then n
                         else if RING_B_FIXED = RING_B_FIXED then 0 else ring_count r)"
  from sc_pop_summary [OF ok buf, of RING_B_FIXED, folded gc_def]
  obtain r2 objs2 where q: "ring_sc_pop r objs n RING_B_FIXED = Inr (gc, r2, objs2)"
    "held r = take (unat gc) objs2 @ held r2"
    "\<forall>j<unat gc. objs2 ! j = slots r ! unat ((cons_head r + of_nat j) AND prod_mask r)"
    "drop (unat gc) objs2 = drop (unat gc) objs"
    "r2 = r\<lparr>cons_head := cons_head r + gc, cons_tail := cons_tail r + gc\<rparr>"
    "gc = 0 \<longrightarrow> r2 = r \<and> objs2 = objs"
    by (elim exE conjE)
  have pop: "(n \<le> ring_count r \<and>
             (\<exists>r' objs'. ring_sc_pop r objs n RING_B_FIXED = Inr (n, r', objs')
                \<and> held r = take (unat n) objs' @ held r'
                \<and> (\<forall>j<unat n. objs' ! j = slots r ! unat ((cons_head r + of_nat j) AND prod_mask r))
                \<and> drop (unat n) objs' = drop (unat n) objs
                \<and> r' = r\<lparr>cons_head := cons_head r + n, cons_tail := cons_tail r + n\<rparr>))
          \<or> (ring_count r < n \<and> ring_sc_pop r objs n RING_B_FIXED = Inr (0, r, objs))"
  proof (cases "n \<le> ring_count r")
    case True
    then have "gc = n"
      by (simp add: gc_def)
    then show ?thesis
      using True q by (intro disjI1 conjI exI [of _ r2] exI [of _ objs2]) simp_all
  next
    case False
    then have "gc = 0"
      by (simp add: gc_def)
    then show ?thesis
      using False q(1,6) by (intro disjI2) simp
  qed
  show ?thesis
    using push pop
    by (simp only: ball_simps bex_simps insert_iff empty_iff mp_push_is_sp [OF ok]
        push_is_sp [OF ok] mc_pop_is_sc [OF ok] pop_is_sc [OF ok])
qed


theorem fixed_all_or_nothing_witness:
  "ring_ok \<lparr>prod_sp = 1, prod_size = 4, prod_mask = 3, prod_head = 3, prod_tail = 3,
        cons_sc = 0, cons_size = 4, cons_mask = 3, cons_head = 0, cons_tail = 0,
        slots = [10 :: nat, 11, 12, 0]\<rparr>
   \<and> unat (2 :: u32) \<le> length [13 :: nat, 14]
   \<and> ring_push \<lparr>prod_sp = 1, prod_size = 4, prod_mask = 3, prod_head = 3, prod_tail = 3,
        cons_sc = 0, cons_size = 4, cons_mask = 3, cons_head = 0, cons_tail = 0,
        slots = [10 :: nat, 11, 12, 0]\<rparr> [13, 14] 2 RING_B_FIXED
      = Inr (0, \<lparr>prod_sp = 1, prod_size = 4, prod_mask = 3, prod_head = 3, prod_tail = 3,
        cons_sc = 0, cons_size = 4, cons_mask = 3, cons_head = 0, cons_tail = 0,
        slots = [10 :: nat, 11, 12, 0]\<rparr>)
   \<and> (\<exists>objs'. ring_pop \<lparr>prod_sp = 1, prod_size = 4, prod_mask = 3, prod_head = 3, prod_tail = 3,
        cons_sc = 0, cons_size = 4, cons_mask = 3, cons_head = 0, cons_tail = 0,
        slots = [10 :: nat, 11, 12, 0]\<rparr> [13, 14] 2 RING_B_FIXED
      = Inr (2, \<lparr>prod_sp = 1, prod_size = 4, prod_mask = 3, prod_head = 3, prod_tail = 3,
        cons_sc = 0, cons_size = 4, cons_mask = 3, cons_head = 2, cons_tail = 2,
        slots = [10 :: nat, 11, 12, 0]\<rparr>, objs')
      \<and> objs' ! 0 = 10 \<and> objs' ! 1 = 11)"
proof -
  let ?r = "\<lparr>prod_sp = 1, prod_size = 4, prod_mask = 3, prod_head = 3, prod_tail = 3,
        cons_sc = 0, cons_size = 4, cons_mask = 3, cons_head = 0, cons_tail = 0,
        slots = [10 :: nat, 11, 12, 0]\<rparr>"
  have "(4 :: u32) = 2 ^ 2"
    by simp
  then have ok: "ring_ok ?r"
    unfolding ring_ok_def by (intro conjI bexI [of _ 2]) simp_all
  have buf: "unat (2 :: u32) \<le> length [13 :: nat, 14]"
    by simp
  have av: "ring_avail ?r = 0" and cnt: "ring_count ?r = 3"
    by (simp_all add: ring_avail_def ring_count_def)
  note t = fixed_all_or_nothing [OF ok buf]
  from t [THEN conjunct1, rule_format, of ring_push]
  have push: "ring_push ?r [13, 14] 2 RING_B_FIXED = Inr (0, ?r)"
    by (simp add: av)
  from t [THEN conjunct2, rule_format, of ring_pop]
  obtain r' objs' where pop: "ring_pop ?r [13, 14] 2 RING_B_FIXED = Inr (2, r', objs')"
    "\<forall>j<unat (2 :: u32). objs' ! j = slots ?r ! unat ((cons_head ?r + of_nat j) AND prod_mask ?r)"
    "r' = ?r\<lparr>cons_head := cons_head ?r + 2, cons_tail := cons_tail ?r + 2\<rparr>"
    by (auto simp add: cnt)
  have "objs' ! 0 = 10"
    using pop(2) [rule_format, of 0] by simp
  moreover have "objs' ! 1 = 11"
    using pop(2) [rule_format, of 1] by simp
  ultimately show ?thesis
    using ok buf push pop(1,3) by simp
qed

text \<open>
  C3. On a well-formed ring between two operations, a push with behaviour
  \<open>RING_B_VARIABLE\<close> returns \<open>min n avail\<close> for the free capacity \<open>avail\<close> and appends
  exactly that many handles, the first ones of the buffer; a pop returns \<open>min n count\<close>
  for the number \<open>count\<close> of handles held and takes exactly that many, the oldest ones,
  into the front of the buffer. With \<open>avail = 0\<close> (for a pop \<open>count = 0\<close>) the result is 0
  and nothing changes.
\<close>

theorem variable_takes_min:
  assumes ok: "ring_ok r" and buf: "unat n \<le> length objs"
  shows "(\<forall>push\<in>{ring_sp_push, ring_mp_push, ring_push}.
            \<exists>r'. push r objs n RING_B_VARIABLE = Inr (min n (ring_avail r), r')
              \<and> held r' = held r @ take (unat (min n (ring_avail r))) objs
              \<and> (\<forall>j<unat (min n (ring_avail r)).
                    slots r' ! unat ((prod_head r + of_nat j) AND prod_mask r) = objs ! j)
              \<and> prod_tail r' = prod_tail r + min n (ring_avail r) \<and> cons_tail r' = cons_tail r
              \<and> (ring_avail r = 0 \<longrightarrow> r' = r))
       \<and> (\<forall>pop\<in>{ring_sc_pop, ring_mc_pop, ring_pop}.
            \<exists>r' objs'. pop r objs n RING_B_VARIABLE = Inr (min n (ring_count r), r', objs')
              \<and> held r = take (unat (min n (ring_count r))) objs' @ held r'
              \<and> length objs' = length objs
              \<and> (\<forall>j<unat (min n (ring_count r)).
                    objs' ! j = slots r ! unat ((cons_head r + of_nat j) AND prod_mask r))
              \<and> drop (unat (min n (ring_count r))) objs' = drop (unat (min n (ring_count r))) objs
              \<and> r' = r\<lparr>cons_head := cons_head r + min n (ring_count r),
                        cons_tail := cons_tail r + min n (ring_count r)\<rparr>
              \<and> (ring_count r = 0 \<longrightarrow> r' = r \<and> objs' = objs))"
proof -
  have var: "RING_B_VARIABLE \<noteq> RING_B_FIXED"
    by (simp add: RING_B_VARIABLE_def RING_B_FIXED_def)
  have gp: "(if n \<le> ring_avail r then n
             else if RING_B_VARIABLE = RING_B_FIXED then 0 else ring_avail r) = min n (ring_avail r)"
    using var by (simp add: min_def)
  from sp_push_summary [OF ok buf, of RING_B_VARIABLE, unfolded gp]
  obtain r1 where p: "ring_sp_push r objs n RING_B_VARIABLE = Inr (min n (ring_avail r), r1)"
    "held r1 = held r @ take (unat (min n (ring_avail r))) objs"
    "\<forall>j<unat (min n (ring_avail r)). slots r1 ! unat ((prod_head r + of_nat j) AND prod_mask r) = objs ! j"
    "prod_tail r1 = prod_tail r + min n (ring_avail r)" "cons_tail r1 = cons_tail r"
    "min n (ring_avail r) = 0 \<longrightarrow> r1 = r"
    by (elim exE conjE)
  have "ring_avail r = 0 \<longrightarrow> r1 = r"
    using p(6) by (simp add: min_def)
  then have push: "\<exists>r'. ring_sp_push r objs n RING_B_VARIABLE = Inr (min n (ring_avail r), r')
              \<and> held r' = held r @ take (unat (min n (ring_avail r))) objs
              \<and> (\<forall>j<unat (min n (ring_avail r)).
                    slots r' ! unat ((prod_head r + of_nat j) AND prod_mask r) = objs ! j)
              \<and> prod_tail r' = prod_tail r + min n (ring_avail r) \<and> cons_tail r' = cons_tail r
              \<and> (ring_avail r = 0 \<longrightarrow> r' = r)"
    using p(1,2,3,4,5) by (intro exI [of _ r1] conjI)
  have gc: "(if n \<le> ring_count r then n
             else if RING_B_VARIABLE = RING_B_FIXED then 0 else ring_count r) = min n (ring_count r)"
    using var by (simp add: min_def)
  from sc_pop_summary [OF ok buf, of RING_B_VARIABLE, unfolded gc]
  obtain r2 objs2 where q:
    "ring_sc_pop r objs n RING_B_VARIABLE = Inr (min n (ring_count r), r2, objs2)"
    "held r = take (unat (min n (ring_count r))) objs2 @ held r2"
    "length objs2 = length objs"
    "\<forall>j<unat (min n (ring_count r)).
        objs2 ! j = slots r ! unat ((cons_head r + of_nat j) AND prod_mask r)"
    "drop (unat (min n (ring_count r))) objs2 = drop (unat (min n (ring_count r))) objs"
    "r2 = r\<lparr>cons_head := cons_head r + min n (ring_count r),
              cons_tail := cons_tail r + min n (ring_count r)\<rparr>"
    "min n (ring_count r) = 0 \<longrightarrow> r2 = r \<and> objs2 = objs"
    by (elim exE conjE)
  have "ring_count r = 0 \<longrightarrow> r2 = r \<and> objs2 = objs"
    using q(7) by (simp add: min_def)
  then have pop: "\<exists>r' objs'. ring_sc_pop r objs n RING_B_VARIABLE = Inr (min n (ring_count r), r', objs')
              \<and> held r = take (unat (min n (ring_count r))) objs' @ held r'
              \<and> length objs' = length objs
              \<and> (\<forall>j<unat (min n (ring_count r)).
                    objs' ! j = slots r ! unat ((cons_head r + of_nat j) AND prod_mask r))
              \<and> drop (unat (min n (ring_count r))) objs' = drop (unat (min n (ring_count r))) objs
              \<and> r' = r\<lparr>cons_head := cons_head r + min n (ring_count r),
                        cons_tail := cons_tail r + min n (ring_count r)\<rparr>
              \<and> (ring_count r = 0 \<longrightarrow> r' = r \<and> objs' = objs)"
    using q(1,2,3,4,5,6) by (intro exI [of _ r2] exI [of _ objs2] conjI)
  show ?thesis
    using push pop
    by (simp only: ball_simps bex_simps insert_iff empty_iff mp_push_is_sp [OF ok]
        push_is_sp [OF ok] mc_pop_is_sc [OF ok] pop_is_sc [OF ok])
qed

theorem variable_takes_min_witness:
  "ring_ok \<lparr>prod_sp = 0, prod_size = 8, prod_mask = 7, prod_head = 5, prod_tail = 5,
        cons_sc = 1, cons_size = 8, cons_mask = 7, cons_head = 0, cons_tail = 0,
        slots = [10 :: nat, 11, 12, 13, 14, 0, 0, 0]\<rparr>
   \<and> unat (5 :: u32) \<le> length [20 :: nat, 21, 22, 23, 24]
   \<and> (\<exists>r'. ring_push \<lparr>prod_sp = 0, prod_size = 8, prod_mask = 7, prod_head = 5, prod_tail = 5,
        cons_sc = 1, cons_size = 8, cons_mask = 7, cons_head = 0, cons_tail = 0,
        slots = [10 :: nat, 11, 12, 13, 14, 0, 0, 0]\<rparr> [20, 21, 22, 23, 24] 5 RING_B_VARIABLE
      = Inr (2, r') \<and> slots r' ! 5 = 20 \<and> slots r' ! 6 = 21 \<and> prod_tail r' = 7)
   \<and> (\<exists>r' objs'. ring_pop \<lparr>prod_sp = 0, prod_size = 8, prod_mask = 7, prod_head = 5, prod_tail = 5,
        cons_sc = 1, cons_size = 8, cons_mask = 7, cons_head = 0, cons_tail = 0,
        slots = [10 :: nat, 11, 12, 13, 14, 0, 0, 0]\<rparr> [20, 21, 22, 23, 24] 5 RING_B_VARIABLE
      = Inr (5, r', objs') \<and> cons_tail r' = 5 \<and> objs' ! 0 = 10 \<and> objs' ! 4 = 14)"
proof -
  let ?r = "\<lparr>prod_sp = 0, prod_size = 8, prod_mask = 7, prod_head = 5, prod_tail = 5,
        cons_sc = 1, cons_size = 8, cons_mask = 7, cons_head = 0, cons_tail = 0,
        slots = [10 :: nat, 11, 12, 13, 14, 0, 0, 0]\<rparr>"
  have "(8 :: u32) = 2 ^ 3"
    by simp
  then have ok: "ring_ok ?r"
    unfolding ring_ok_def by (intro conjI bexI [of _ 3]) simp_all
  have buf: "unat (5 :: u32) \<le> length [20 :: nat, 21, 22, 23, 24]"
    by simp
  have av: "min 5 (ring_avail ?r) = 2" and cnt: "min 5 (ring_count ?r) = 5"
    by (simp_all add: ring_avail_def ring_count_def)
  note t = variable_takes_min [OF ok buf, unfolded av cnt]
  from t [THEN conjunct1, rule_format, of ring_push]
  obtain r1 where push: "ring_push ?r [20, 21, 22, 23, 24] 5 RING_B_VARIABLE = Inr (2, r1)"
    "\<forall>j<unat (2 :: u32). slots r1 ! unat ((prod_head ?r + of_nat j) AND prod_mask ?r)
        = [20 :: nat, 21, 22, 23, 24] ! j"
    "prod_tail r1 = prod_tail ?r + 2"
    by auto
  have "slots r1 ! 5 = 20"
    using push(2) [rule_format, of 0] by simp
  moreover have "slots r1 ! 6 = 21"
    using push(2) [rule_format, of 1] by simp
  ultimately have a: "\<exists>r'. ring_push ?r [20, 21, 22, 23, 24] 5 RING_B_VARIABLE = Inr (2, r')
      \<and> slots r' ! 5 = 20 \<and> slots r' ! 6 = 21 \<and> prod_tail r' = 7"
    using push(1,3) by (intro exI [of _ r1]) simp
  from t [THEN conjunct2, rule_format, of ring_pop]
  obtain r2 objs2 where pop:
    "ring_pop ?r [20, 21, 22, 23, 24] 5 RING_B_VARIABLE = Inr (5, r2, objs2)"
    "\<forall>j<unat (5 :: u32). objs2 ! j = slots ?r ! unat ((cons_head ?r + of_nat j) AND prod_mask ?r)"
    "r2 = ?r\<lparr>cons_head := cons_head ?r + 5, cons_tail := cons_tail ?r + 5\<rparr>"
    by auto
  have "objs2 ! 0 = 10"
    using pop(2) [rule_format, of 0] by simp
  moreover have "objs2 ! 4 = 14"
    using pop(2) [rule_format, of 4] by simp
  ultimately have b: "\<exists>r' objs'. ring_pop ?r [20, 21, 22, 23, 24] 5 RING_B_VARIABLE
      = Inr (5, r', objs') \<and> cons_tail r' = 5 \<and> objs' ! 0 = 10 \<and> objs' ! 4 = 14"
    using pop(1,3) by (intro exI [of _ r2] exI [of _ objs2]) simp
  show ?thesis
    using ok buf a b by (intro conjI)
qed

text \<open>
  C4. In a single-producer/single-consumer ring run from \<^verbatim>\<open>ring_init\<close> through any
  sequence of calls, every call returns, and the handles popped so far followed by the
  handles the ring holds are the handles pushed so far, in the order pushed. The number
  held is \<open>ring_count\<close>, and one more pop of that many hands out all of them in that
  order, after which the ring holds nothing.
\<close>

theorem fifo_order:
  assumes k: "k < 32" and len: "length (slots r0) = 2 ^ k" and calls: "list_all call_ok calls"
    and sp: "flags AND RING_F_SP \<noteq> 0" and sc: "flags AND RING_F_SC \<noteq> 0"
  shows "\<exists>r pushed popped.
      run (ring_init r0 (2 ^ k) flags, [], []) calls = Inr (r, pushed, popped)
      \<and> prod_sp r \<noteq> 0 \<and> cons_sc r \<noteq> 0
      \<and> pushed = popped @ held r
      \<and> length (held r) = unat (ring_count r)
      \<and> (\<forall>buf. length (held r) \<le> length buf \<longrightarrow>
            (\<exists>r'. ring_pop r buf (ring_count r) RING_B_FIXED
                     = Inr (ring_count r, r', held r @ drop (length (held r)) buf)
                  \<and> held r' = []))"
proof -
  have ok: "ring_ok (ring_init r0 (2 ^ k) flags)"
    using k len by (rule ring_init_ok)
  have log: "[] = [] @ held (ring_init r0 (2 ^ k) flags)"
    by (simp add: held_ring_init)
  from run_inv [OF ok calls log]
  obtain r pushed popped where r:
    "run (ring_init r0 (2 ^ k) flags, [], []) calls = Inr (r, pushed, popped)" "ring_ok r"
    "pushed = popped @ held r" "prod_sp r = prod_sp (ring_init r0 (2 ^ k) flags)"
    "cons_sc r = cons_sc (ring_init r0 (2 ^ k) flags)"
    by (elim exE conjE)
  have flags: "prod_sp r \<noteq> 0" "cons_sc r \<noteq> 0"
    using sp sc by (simp_all add: r(4,5) init_flags)
  have "\<forall>buf. length (held r) \<le> length buf \<longrightarrow>
            (\<exists>r'. ring_pop r buf (ring_count r) RING_B_FIXED
                     = Inr (ring_count r, r', held r @ drop (length (held r)) buf)
                  \<and> held r' = [])"
    using drain [OF r(2)] by (simp add: pop_is_sc [OF r(2)])
  then show ?thesis
    using r(1,3) flags length_held [OF r(2)]
    by (intro exI [of _ r] exI [of _ pushed] exI [of _ popped]) simp
qed

theorem fifo_order_witness:
  "run (ring_init \<lparr>prod_sp = 7, prod_size = 7, prod_mask = 7, prod_head = 7, prod_tail = 7,
          cons_sc = 7, cons_size = 7, cons_mask = 7, cons_head = 7, cons_tail = 7,
          slots = [0 :: nat, 0, 0, 0]\<rparr> (2 ^ 2) 3, [], [])
     [Push [10, 11, 12] 3 RING_B_FIXED, Push [13] 1 RING_B_FIXED, Pop [0, 0] 2 RING_B_FIXED,
      Push [13, 14] 2 RING_B_FIXED]
   = Inr (\<lparr>prod_sp = 1, prod_size = 4, prod_mask = 3, prod_head = 5, prod_tail = 5,
          cons_sc = 1, cons_size = 4, cons_mask = 3, cons_head = 2, cons_tail = 2,
          slots = [14, 11, 12, 13]\<rparr>, [10, 11, 12, 13, 14], [10, 11])
   \<and> held \<lparr>prod_sp = 1, prod_size = 4, prod_mask = 3, prod_head = 5, prod_tail = 5,
          cons_sc = 1, cons_size = 4, cons_mask = 3, cons_head = 2, cons_tail = 2,
          slots = [14 :: nat, 11, 12, 13]\<rparr> = [12, 13, 14]
   \<and> (\<exists>r'. ring_pop \<lparr>prod_sp = 1, prod_size = 4, prod_mask = 3, prod_head = 5, prod_tail = 5,
          cons_sc = 1, cons_size = 4, cons_mask = 3, cons_head = 2, cons_tail = 2,
          slots = [14 :: nat, 11, 12, 13]\<rparr> [0, 0, 0] 3 RING_B_FIXED
        = Inr (3, r', [12, 13, 14]))"
proof -
  let ?init = "\<lparr>prod_sp = 7, prod_size = 7, prod_mask = 7, prod_head = 7, prod_tail = 7,
          cons_sc = 7, cons_size = 7, cons_mask = 7, cons_head = 7, cons_tail = 7,
          slots = [0 :: nat, 0, 0, 0]\<rparr>"
  let ?calls = "[Push [10 :: nat, 11, 12] 3 RING_B_FIXED, Push [13] 1 RING_B_FIXED,
      Pop [0, 0] 2 RING_B_FIXED, Push [13, 14] 2 RING_B_FIXED]"
  let ?end = "\<lparr>prod_sp = 1, prod_size = 4, prod_mask = 3, prod_head = 5, prod_tail = 5,
          cons_sc = 1, cons_size = 4, cons_mask = 3, cons_head = 2, cons_tail = 2,
          slots = [14 :: nat, 11, 12, 13]\<rparr>"
  have h: "(2 :: nat) < 32" "length (slots ?init) = 2 ^ 2" "list_all call_ok ?calls"
    "(3 :: u32) AND RING_F_SP \<noteq> 0" "(3 :: u32) AND RING_F_SC \<noteq> 0"
    by (simp_all add: RING_F_SP_def RING_F_SC_def)
  have ev: "run (ring_init ?init (2 ^ 2) 3, [], []) ?calls
      = Inr (?end, [10, 11, 12, 13, 14], [10, 11])"
    by code_simp
  from fifo_order [OF h]
  obtain r pushed popped where r:
    "run (ring_init ?init (2 ^ 2) 3, [], []) ?calls = Inr (r, pushed, popped)"
    "pushed = popped @ held r" "length (held r) = unat (ring_count r)"
    "\<forall>buf. length (held r) \<le> length buf \<longrightarrow>
       (\<exists>r'. ring_pop r buf (ring_count r) RING_B_FIXED
                = Inr (ring_count r, r', held r @ drop (length (held r)) buf)
             \<and> held r' = [])"
    by (elim exE conjE)
  have eq: "r = ?end" "pushed = [10, 11, 12, 13, 14]" "popped = [10, 11]"
    using r(1) ev by simp_all
  have held: "held ?end = [12, 13, 14]"
    using r(2) unfolding eq by simp
  have cnt: "ring_count ?end = 3"
    by (simp add: ring_count_def)
  have "length (held ?end) \<le> length [0 :: nat, 0, 0]"
    by (simp add: held)
  from r(4) [unfolded eq, rule_format, OF this]
  have "\<exists>r'. ring_pop ?end [0, 0, 0] 3 RING_B_FIXED = Inr (3, r', [12, 13, 14])"
    by (auto simp add: held cnt)
  then show ?thesis
    using ev held by (intro conjI)
qed

text \<open>
  C5. For every pair of tails and every power-of-two size with \<open>mask = size - 1\<close>,
  \<open>ring_count + ring_avail = size - 1\<close>, as 32-bit values and as numbers, and
  \<open>0 \<le> ring_count \<le> size - 1\<close>.
\<close>

theorem ring_count_plus_avail:
  assumes "\<exists>k<32. prod_size r = 2 ^ k" and "prod_mask r = prod_size r - 1"
  shows "ring_count r + ring_avail r = prod_size r - 1
       \<and> unat (ring_count r) + unat (ring_avail r) = unat (prod_size r) - 1
       \<and> 0 \<le> unat (ring_count r) \<and> unat (ring_count r) \<le> unat (prod_size r) - 1"
proof -
  obtain k where k: "k < 32" "prod_size r = 2 ^ k"
    using assms(1) by blast
  have m: "unat (prod_mask r) = unat (prod_size r) - 1"
    using k by (simp add: assms(2) unat_pow2_minus1 unat_pow2)
  have "unat (ring_count r) \<le> unat (prod_mask r)"
    using count_le_mask [of r] by (simp add: word_le_nat_alt)
  then show ?thesis
    using count_avail_word [of r] count_avail_nat [of r] m assms(2) by simp
qed

theorem ring_count_plus_avail_witness:
  "(\<exists>k<32. (8 :: u32) = 2 ^ k) \<and> (7 :: u32) = 8 - 1
   \<and> ring_count \<lparr>prod_sp = 1, prod_size = 8, prod_mask = 7, prod_head = 5, prod_tail = 5,
        cons_sc = 1, cons_size = 8, cons_mask = 7, cons_head = 0xFFFFFFFE, cons_tail = 0xFFFFFFFE,
        slots = [0 :: nat, 0, 0, 0, 0, 0, 0, 0]\<rparr> = 7
   \<and> ring_avail \<lparr>prod_sp = 1, prod_size = 8, prod_mask = 7, prod_head = 5, prod_tail = 5,
        cons_sc = 1, cons_size = 8, cons_mask = 7, cons_head = 0xFFFFFFFE, cons_tail = 0xFFFFFFFE,
        slots = [0 :: nat, 0, 0, 0, 0, 0, 0, 0]\<rparr> = 0"
proof -
  let ?r = "\<lparr>prod_sp = 1, prod_size = 8, prod_mask = 7, prod_head = 5, prod_tail = 5,
        cons_sc = 1, cons_size = 8, cons_mask = 7, cons_head = 0xFFFFFFFE, cons_tail = 0xFFFFFFFE,
        slots = [0 :: nat, 0, 0, 0, 0, 0, 0, 0]\<rparr>"
  have h1: "\<exists>k<32. prod_size ?r = 2 ^ k"
    by (rule exI [of _ 3]) simp
  have h2: "prod_mask ?r = prod_size ?r - 1"
    by simp
  have c: "ring_count ?r = 7"
    by (simp add: ring_count_def)
  have "(\<exists>k<32. (8 :: u32) = 2 ^ k)"
    using h1 by simp
  then show ?thesis
    using ring_count_plus_avail [OF h1 h2] c by simp
qed

text \<open>
  C6. In every state reached from \<^verbatim>\<open>ring_init\<close> by a sequence of calls,
  \<^verbatim>\<open>ring_empty\<close> returns 1 exactly when \<open>ring_count\<close> is 0, \<^verbatim>\<open>ring_full\<close> returns 1
  exactly when \<open>ring_avail\<close> is 0, both are 0 or 1, both are 1 only when the size is 1,
  and when the size is 1 both are 1 and the ring holds nothing.
\<close>

theorem empty_full_reachable:
  assumes k: "k < 32" and len: "length (slots r0) = 2 ^ k" and calls: "list_all call_ok calls"
  shows "\<exists>r pushed popped.
      run (ring_init r0 (2 ^ k) flags, [], []) calls = Inr (r, pushed, popped)
      \<and> prod_size r = 2 ^ k
      \<and> (ring_empty r = 1 \<longleftrightarrow> ring_count r = 0)
      \<and> (ring_full r = 1 \<longleftrightarrow> ring_avail r = 0)
      \<and> ring_empty r \<in> {0, 1} \<and> ring_full r \<in> {0, 1}
      \<and> (ring_empty r = 1 \<and> ring_full r = 1 \<longrightarrow> prod_size r = 1)
      \<and> (prod_size r = 1 \<longrightarrow>
            ring_empty r = 1 \<and> ring_full r = 1 \<and> held r = [] \<and> pushed = popped)"
proof -
  have ok: "ring_ok (ring_init r0 (2 ^ k) flags)"
    using k len by (rule ring_init_ok)
  have log: "[] = [] @ held (ring_init r0 (2 ^ k) flags)"
    by (simp add: held_ring_init)
  from run_inv [OF ok calls log]
  obtain r pushed popped where r:
    "run (ring_init r0 (2 ^ k) flags, [], []) calls = Inr (r, pushed, popped)" "ring_ok r"
    "pushed = popped @ held r" "prod_size r = prod_size (ring_init r0 (2 ^ k) flags)"
    by (elim exE conjE)
  have sz: "prod_size r = 2 ^ k"
    by (simp add: r(4) init_flags)
  have cnt: "ring_count r = prod_tail r - cons_tail r"
    using r(2) by (rule ring_count_ok)
  have m: "prod_mask r = prod_size r - 1"
    using r(2) by (simp add: ring_ok_def)
  have e: "ring_empty r = 1 \<longleftrightarrow> ring_count r = 0"
    by (auto simp add: ring_empty_def cnt)
  have f: "ring_full r = 1 \<longleftrightarrow> ring_avail r = 0"
    by (simp add: ring_full_def ring_avail_def)
  have v: "ring_empty r \<in> {0, 1}" "ring_full r \<in> {0, 1}"
    by (simp_all add: ring_empty_def ring_full_def)
  have sum: "ring_count r + ring_avail r = prod_size r - 1"
    using count_avail_word [of r] m by simp
  have both: "prod_size r = 1" if "ring_empty r = 1 \<and> ring_full r = 1"
    using that e f sum by simp
  have one: "ring_empty r = 1 \<and> ring_full r = 1 \<and> held r = [] \<and> pushed = popped"
    if "prod_size r = 1"
  proof -
    have "prod_mask r = 0"
      using that m by simp
    moreover have "ring_count r \<le> prod_mask r"
      by (rule count_le_mask)
    ultimately have c: "ring_count r = 0"
      by simp
    then have a: "ring_avail r = 0"
      using sum that by simp
    have "length (held r) = 0"
      using length_held [OF r(2)] c by simp
    then show ?thesis
      using e f c a r(3) by simp
  qed
  show ?thesis
    using r(1) sz e f v both one
    by (intro exI [of _ r] exI [of _ pushed] exI [of _ popped]) blast
qed

theorem empty_full_reachable_witness:
  "(\<exists>r pushed popped.
      run (ring_init \<lparr>prod_sp = 7, prod_size = 7, prod_mask = 7, prod_head = 7, prod_tail = 7,
             cons_sc = 7, cons_size = 7, cons_mask = 7, cons_head = 7, cons_tail = 7,
             slots = [0 :: nat]\<rparr> (2 ^ 0) 0, [], [])
        [Push [5] 1 RING_B_VARIABLE, Pop [0] 1 RING_B_VARIABLE] = Inr (r, pushed, popped)
      \<and> ring_empty r = 1 \<and> ring_full r = 1 \<and> held r = [] \<and> pushed = popped)
   \<and> (\<exists>r pushed popped.
      run (ring_init \<lparr>prod_sp = 7, prod_size = 7, prod_mask = 7, prod_head = 7, prod_tail = 7,
             cons_sc = 7, cons_size = 7, cons_mask = 7, cons_head = 7, cons_tail = 7,
             slots = [0 :: nat, 0, 0, 0]\<rparr> (2 ^ 2) 0, [], [])
        [Push [10, 11, 12] 3 RING_B_FIXED] = Inr (r, pushed, popped)
      \<and> ring_full r = 1 \<and> ring_avail r = 0 \<and> ring_empty r = 0 \<and> ring_count r = 3)"
proof -
  let ?one = "\<lparr>prod_sp = 7, prod_size = 7, prod_mask = 7, prod_head = 7, prod_tail = 7,
             cons_sc = 7, cons_size = 7, cons_mask = 7, cons_head = 7, cons_tail = 7,
             slots = [0 :: nat]\<rparr>"
  let ?four = "\<lparr>prod_sp = 7, prod_size = 7, prod_mask = 7, prod_head = 7, prod_tail = 7,
             cons_sc = 7, cons_size = 7, cons_mask = 7, cons_head = 7, cons_tail = 7,
             slots = [0 :: nat, 0, 0, 0]\<rparr>"
  let ?c1 = "[Push [5 :: nat] 1 RING_B_VARIABLE, Pop [0] 1 RING_B_VARIABLE]"
  let ?c4 = "[Push [10 :: nat, 11, 12] 3 RING_B_FIXED]"
  have h1: "(0 :: nat) < 32" "length (slots ?one) = 2 ^ 0" "list_all call_ok ?c1"
    by simp_all
  have h4: "(2 :: nat) < 32" "length (slots ?four) = 2 ^ 2" "list_all call_ok ?c4"
    by simp_all
  from empty_full_reachable [OF h1, of 0]
  obtain r pushed popped where r:
    "run (ring_init ?one (2 ^ 0) 0, [], []) ?c1 = Inr (r, pushed, popped)"
    "prod_size r = 2 ^ 0"
    "prod_size r = 1 \<longrightarrow> ring_empty r = 1 \<and> ring_full r = 1 \<and> held r = [] \<and> pushed = popped"
    by (elim exE conjE)
  have a: "\<exists>r pushed popped.
      run (ring_init ?one (2 ^ 0) 0, [], []) ?c1 = Inr (r, pushed, popped)
      \<and> ring_empty r = 1 \<and> ring_full r = 1 \<and> held r = [] \<and> pushed = popped"
    using r by (intro exI [of _ r] exI [of _ pushed] exI [of _ popped]) simp
  have ev: "run (ring_init ?four (2 ^ 2) 0, [], []) ?c4
      = Inr (\<lparr>prod_sp = 0, prod_size = 4, prod_mask = 3, prod_head = 3, prod_tail = 3,
              cons_sc = 0, cons_size = 4, cons_mask = 3, cons_head = 0, cons_tail = 0,
              slots = [10, 11, 12, 0]\<rparr>, [10, 11, 12], [])"
    by code_simp
  from empty_full_reachable [OF h4, of 0]
  obtain s pushed' popped' where s:
    "run (ring_init ?four (2 ^ 2) 0, [], []) ?c4 = Inr (s, pushed', popped')"
    "ring_empty s = 1 \<longleftrightarrow> ring_count s = 0" "ring_full s = 1 \<longleftrightarrow> ring_avail s = 0"
    "ring_empty s \<in> {0, 1}"
    by (elim exE conjE)
  have s_eq: "s = \<lparr>prod_sp = 0, prod_size = 4, prod_mask = 3, prod_head = 3, prod_tail = 3,
              cons_sc = 0, cons_size = 4, cons_mask = 3, cons_head = 0, cons_tail = 0,
              slots = [10, 11, 12, 0]\<rparr>"
    using s(1) ev by simp
  have c: "ring_count s = 3" and v: "ring_avail s = 0"
    by (simp_all add: s_eq ring_count_def ring_avail_def)
  have "ring_full s = 1" and "ring_empty s = 0"
    using s(2,3,4) c v by auto
  then have b: "\<exists>r pushed popped.
      run (ring_init ?four (2 ^ 2) 0, [], []) ?c4 = Inr (r, pushed, popped)
      \<and> ring_full r = 1 \<and> ring_avail r = 0 \<and> ring_empty r = 0 \<and> ring_count r = 3"
    using s(1) c v by (intro exI [of _ s] exI [of _ pushed'] exI [of _ popped']) simp
  show ?thesis
    using a b by (intro conjI)
qed

text \<open>
  C7. A transfer of \<open>n \<le> size - 1\<close> handles for the reservation that starts at \<open>head\<close>
  stores (push) or loads (pop) the \<open>i\<close>-th handle at slot \<open>(head + i) & mask\<close> for every
  \<open>i < n\<close>; a push leaves every other slot as it was and a pop leaves the buffer beyond
  \<open>n\<close> as it was. The assignments are those of \<open>slot_steps\<close>: one run when the range
  ends before \<open>size\<close>, else the prefix from \<open>head & mask\<close> up to \<open>size\<close> and the suffix from
  slot 0, the case \<open>(head & mask) + n = size\<close> included (there the suffix is empty).
\<close>

theorem slot_transfer_indices:
  assumes k: "k < 32" and psz: "prod_size r = 2 ^ k" and csz: "cons_size r = 2 ^ k"
    and len: "length (slots r) = 2 ^ k" and m: "rmask = 2 ^ k - 1"
    and n: "n \<le> rmask" and buf: "unat n \<le> length objs"
  shows "(\<exists>ring'. PUSH_PTRS r head rmask n objs = Inr (r\<lparr>slots := ring'\<rparr>)
            \<and> length ring' = length (slots r)
            \<and> (\<forall>i<unat n. ring' ! unat ((head + of_nat i) AND rmask) = objs ! i)
            \<and> (\<forall>x. (\<forall>i<unat n. x \<noteq> unat ((head + of_nat i) AND rmask))
                  \<longrightarrow> ring' ! x = slots r ! x))
       \<and> POP_PTRS r head rmask n objs
            = Inr (map (\<lambda>i. slots r ! unat ((head + of_nat i) AND rmask)) [0..<unat n]
                   @ drop (unat n) objs)
       \<and> (\<forall>mv st. COPY_PTRS mv (2 ^ k) (head AND rmask) n st
            = moves mv (slot_steps (2 ^ k) (unat (head AND rmask)) (unat n)) st)"
proof -
  have "unat n \<le> unat rmask"
    using n by (simp only: word_le_nat_alt)
  moreover have "unat rmask = 2 ^ k - 1"
    using k by (simp add: m unat_pow2_minus1)
  moreover have "(0 :: nat) < 2 ^ k"
    by simp
  ultimately have n_lt: "unat n < 2 ^ k"
    by linarith
  have ix: "unat ((head + of_nat i) AND (2 ^ k - 1) :: u32) = (unat head + i) mod 2 ^ k" for i
    using k by (intro slot_index) simp
  from PUSH_PTRS_result [OF k psz len n_lt buf, of head]
  have push: "\<exists>ring'. PUSH_PTRS r head rmask n objs = Inr (r\<lparr>slots := ring'\<rparr>)
            \<and> length ring' = length (slots r)
            \<and> (\<forall>i<unat n. ring' ! unat ((head + of_nat i) AND rmask) = objs ! i)
            \<and> (\<forall>x. (\<forall>i<unat n. x \<noteq> unat ((head + of_nat i) AND rmask))
                  \<longrightarrow> ring' ! x = slots r ! x)"
    by (simp only: ix m len)
  from POP_PTRS_result [OF k csz len n_lt buf, of head]
  have pop: "POP_PTRS r head rmask n objs
            = Inr (map (\<lambda>i. slots r ! unat ((head + of_nat i) AND rmask)) [0..<unat n]
                   @ drop (unat n) objs)"
    by (simp only: ix m)
  have idx: "unat (head AND rmask) < 2 ^ k"
    by (simp add: m unat_and_pow2_mask)
  have "(2 :: nat) ^ k \<le> 2 ^ 31"
    using k by (intro power_increasing) simp_all
  then have room: "unat (head AND rmask) + unat n < 2 ^ 32"
    using idx n_lt by simp
  have S: "unat (2 ^ k :: u32) = 2 ^ k"
    using k by (rule unat_pow2)
  have copy: "COPY_PTRS mv (2 ^ k) (head AND rmask) n st
      = moves mv (slot_steps (2 ^ k) (unat (head AND rmask)) (unat n)) st" for mv and st
    using COPY_PTRS_moves [of "head AND rmask" "2 ^ k" n mv st] idx room by (simp only: S)
  show ?thesis
    using push pop copy by blast
qed


theorem slot_transfer_indices_witness:
  "(\<exists>ring'. PUSH_PTRS \<lparr>prod_sp = 1, prod_size = 4, prod_mask = 3, prod_head = 8, prod_tail = 5,
        cons_sc = 1, cons_size = 4, cons_mask = 3, cons_head = 5, cons_tail = 5,
        slots = [7 :: nat, 8, 9, 6]\<rparr> 5 3 3 [10, 11, 12]
      = Inr \<lparr>prod_sp = 1, prod_size = 4, prod_mask = 3, prod_head = 8, prod_tail = 5,
        cons_sc = 1, cons_size = 4, cons_mask = 3, cons_head = 5, cons_tail = 5,
        slots = ring'\<rparr>
      \<and> length ring' = 4 \<and> ring' ! 1 = 10 \<and> ring' ! 2 = 11 \<and> ring' ! 3 = 12 \<and> ring' ! 0 = 7)
   \<and> POP_PTRS \<lparr>prod_sp = 1, prod_size = 4, prod_mask = 3, prod_head = 8, prod_tail = 5,
        cons_sc = 1, cons_size = 4, cons_mask = 3, cons_head = 5, cons_tail = 5,
        slots = [7 :: nat, 8, 9, 6]\<rparr> 5 3 3 [10, 11, 12] = Inr [8, 9, 6]"
proof -
  let ?r = "\<lparr>prod_sp = 1, prod_size = 4, prod_mask = 3, prod_head = 8, prod_tail = 5,
        cons_sc = 1, cons_size = 4, cons_mask = 3, cons_head = 5, cons_tail = 5,
        slots = [7 :: nat, 8, 9, 6]\<rparr>"
  have h: "(2 :: nat) < 32" "prod_size ?r = 2 ^ 2" "cons_size ?r = 2 ^ 2"
    "length (slots ?r) = 2 ^ 2" "(3 :: u32) = 2 ^ 2 - 1" "(3 :: u32) \<le> 3"
    "unat (3 :: u32) \<le> length [10 :: nat, 11, 12]"
    by simp_all
  note t = slot_transfer_indices [OF h, of 5]
  from t [THEN conjunct1] obtain ring' where ring':
    "PUSH_PTRS ?r 5 3 3 [10, 11, 12] = Inr (?r\<lparr>slots := ring'\<rparr>)"
    "length ring' = length (slots ?r)"
    "\<forall>i<unat (3 :: u32). ring' ! unat ((5 + of_nat i) AND (3 :: u32)) = [10 :: nat, 11, 12] ! i"
    "\<forall>x. (\<forall>i<unat (3 :: u32). x \<noteq> unat ((5 + of_nat i) AND (3 :: u32)))
        \<longrightarrow> ring' ! x = slots ?r ! x"
    by (elim exE conjE)
  have "ring' ! 1 = 10"
    using ring'(3) [rule_format, of 0] by simp
  moreover have "ring' ! 2 = 11"
    using ring'(3) [rule_format, of 1] by simp
  moreover have "ring' ! 3 = 12"
    using ring'(3) [rule_format, of 2] by simp
  moreover have "\<forall>i<unat (3 :: u32). (0 :: nat) \<noteq> unat ((5 + of_nat i) AND (3 :: u32))"
  proof (intro allI impI)
    fix i
    assume "i < unat (3 :: u32)"
    moreover have "unat (3 :: u32) = 3"
      by simp
    ultimately have "i = 0 \<or> i = 1 \<or> i = 2"
      by arith
    then show "(0 :: nat) \<noteq> unat ((5 + of_nat i) AND (3 :: u32))"
      by auto
  qed
  then have "ring' ! 0 = 7"
    using ring'(4) [rule_format, of 0] by simp
  moreover have "POP_PTRS ?r 5 3 3 [10, 11, 12] = Inr [8, 9, 6]"
  proof -
    have u: "unat (3 :: u32) = 3"
      by simp
    have l: "[0..<3 :: nat] = [0, 1, 2]"
      by (simp add: upt_rec)
    from t [THEN conjunct2, THEN conjunct1] have "POP_PTRS ?r 5 3 3 [10, 11, 12]
        = Inr (map (\<lambda>i. slots ?r ! unat ((5 + of_nat i) AND (3 :: u32))) [0..<unat (3 :: u32)]
               @ drop (unat (3 :: u32)) [10, 11, 12])" .
    then show ?thesis
      unfolding u l by simp
  qed
  ultimately show ?thesis
    using ring'(1,2) by simp
qed

text \<open>
  C8. The counters are 32-bit words. After any sequence of calls on a
  single-producer/single-consumer ring, started at \<^verbatim>\<open>ring_init\<close> or at any well-formed
  state (whatever its counters, so also just below \<open>2 ^ 32\<close>) whose logs account for the
  handles it holds, \<open>ring_count\<close> is the number of handles pushed and not yet popped and
  \<open>ring_avail\<close> is \<open>size - 1\<close> minus that number.
\<close>

theorem count_across_wrap:
  assumes calls: "list_all call_ok calls"
  shows "(k < 32 \<and> length (slots r0) = 2 ^ k
            \<and> flags AND RING_F_SP \<noteq> 0 \<and> flags AND RING_F_SC \<noteq> 0 \<longrightarrow>
          (\<exists>r pushed popped.
              run (ring_init r0 (2 ^ k) flags, [], []) calls = Inr (r, pushed, popped)
              \<and> length popped \<le> length pushed
              \<and> unat (ring_count r) = length pushed - length popped
              \<and> unat (ring_avail r) = unat (prod_size r) - 1 - (length pushed - length popped)))
       \<and> (ring_ok r1 \<and> prod_sp r1 \<noteq> 0 \<and> cons_sc r1 \<noteq> 0 \<and> pushed1 = popped1 @ held r1 \<longrightarrow>
          (\<exists>r pushed popped.
              run (r1, pushed1, popped1) calls = Inr (r, pushed, popped)
              \<and> length popped \<le> length pushed
              \<and> unat (ring_count r) = length pushed - length popped
              \<and> unat (ring_avail r) = unat (prod_size r) - 1 - (length pushed - length popped)))"
proof -
  have main: "\<exists>r pushed popped.
      run (s, pushed0, popped0) calls = Inr (r, pushed, popped)
      \<and> length popped \<le> length pushed
      \<and> unat (ring_count r) = length pushed - length popped
      \<and> unat (ring_avail r) = unat (prod_size r) - 1 - (length pushed - length popped)"
    if ok: "ring_ok s" and log: "pushed0 = popped0 @ held s" for s :: "'a ring" and pushed0 popped0
  proof -
    from run_inv [OF ok calls log]
    obtain r pushed popped where r:
      "run (s, pushed0, popped0) calls = Inr (r, pushed, popped)" "ring_ok r"
      "pushed = popped @ held r"
      by (elim exE conjE)
    have c: "unat (ring_count r) = length pushed - length popped"
      using r(3) length_held [OF r(2)] by simp
    from r(2) obtain j where j: "j < 32" "prod_size r = 2 ^ j" "prod_mask r = 2 ^ j - 1"
      by (rule ring_okE)
    have "unat (prod_mask r) = unat (prod_size r) - 1"
      using j by (simp add: unat_pow2 unat_pow2_minus1)
    then have a: "unat (ring_avail r) = unat (prod_size r) - 1 - (length pushed - length popped)"
      using count_avail_nat [of r] c by simp
    show ?thesis
      using r(1,3) c a by (intro exI [of _ r] exI [of _ pushed] exI [of _ popped]) simp
  qed
  show ?thesis
  proof (intro conjI impI)
    assume a: "k < 32 \<and> length (slots r0) = 2 ^ k
        \<and> flags AND RING_F_SP \<noteq> 0 \<and> flags AND RING_F_SC \<noteq> 0"
    then have "ring_ok (ring_init r0 (2 ^ k) flags)"
      by (simp add: ring_init_ok)
    moreover have "[] = [] @ held (ring_init r0 (2 ^ k) flags)"
      by (simp add: held_ring_init)
    ultimately show "\<exists>r pushed popped.
        run (ring_init r0 (2 ^ k) flags, [], []) calls = Inr (r, pushed, popped)
        \<and> length popped \<le> length pushed
        \<and> unat (ring_count r) = length pushed - length popped
        \<and> unat (ring_avail r) = unat (prod_size r) - 1 - (length pushed - length popped)"
      by (rule main)
  next
    assume "ring_ok r1 \<and> prod_sp r1 \<noteq> 0 \<and> cons_sc r1 \<noteq> 0 \<and> pushed1 = popped1 @ held r1"
    then have "ring_ok r1" and "pushed1 = popped1 @ held r1"
      by simp_all
    then show "\<exists>r pushed popped.
        run (r1, pushed1, popped1) calls = Inr (r, pushed, popped)
        \<and> length popped \<le> length pushed
        \<and> unat (ring_count r) = length pushed - length popped
        \<and> unat (ring_avail r) = unat (prod_size r) - 1 - (length pushed - length popped)"
      by (rule main)
  qed
qed


theorem count_across_wrap_witness:
  "run (\<lparr>prod_sp = 1, prod_size = 4, prod_mask = 3, prod_head = 0xFFFFFFFE, prod_tail = 0xFFFFFFFE,
          cons_sc = 1, cons_size = 4, cons_mask = 3, cons_head = 0xFFFFFFFE, cons_tail = 0xFFFFFFFE,
          slots = [0 :: nat, 0, 0, 0]\<rparr>, [], [])
     [Push [1, 2, 3] 3 RING_B_FIXED, Pop [0, 0] 2 RING_B_FIXED]
   = Inr (\<lparr>prod_sp = 1, prod_size = 4, prod_mask = 3, prod_head = 1, prod_tail = 1,
          cons_sc = 1, cons_size = 4, cons_mask = 3, cons_head = 0, cons_tail = 0,
          slots = [3, 0, 1, 2]\<rparr>, [1, 2, 3], [1, 2])
   \<and> unat (ring_count \<lparr>prod_sp = 1, prod_size = 4, prod_mask = 3, prod_head = 1, prod_tail = 1,
          cons_sc = 1, cons_size = 4, cons_mask = 3, cons_head = 0, cons_tail = 0,
          slots = [3 :: nat, 0, 1, 2]\<rparr>) = 1
   \<and> unat (ring_avail \<lparr>prod_sp = 1, prod_size = 4, prod_mask = 3, prod_head = 1, prod_tail = 1,
          cons_sc = 1, cons_size = 4, cons_mask = 3, cons_head = 0, cons_tail = 0,
          slots = [3 :: nat, 0, 1, 2]\<rparr>) = 2
   \<and> (\<exists>r pushed popped.
        run (ring_init \<lparr>prod_sp = 7, prod_size = 7, prod_mask = 7, prod_head = 7, prod_tail = 7,
               cons_sc = 7, cons_size = 7, cons_mask = 7, cons_head = 7, cons_tail = 7,
               slots = [0 :: nat, 0, 0, 0]\<rparr> (2 ^ 2) 3, [], [])
          [Push [1, 2, 3] 3 RING_B_FIXED, Pop [0, 0] 2 RING_B_FIXED] = Inr (r, pushed, popped)
        \<and> unat (ring_count r) = length pushed - length popped)"
proof -
  let ?start = "\<lparr>prod_sp = 1, prod_size = 4, prod_mask = 3, prod_head = 0xFFFFFFFE,
          prod_tail = 0xFFFFFFFE, cons_sc = 1, cons_size = 4, cons_mask = 3,
          cons_head = 0xFFFFFFFE, cons_tail = 0xFFFFFFFE, slots = [0 :: nat, 0, 0, 0]\<rparr>"
  let ?init = "\<lparr>prod_sp = 7, prod_size = 7, prod_mask = 7, prod_head = 7, prod_tail = 7,
               cons_sc = 7, cons_size = 7, cons_mask = 7, cons_head = 7, cons_tail = 7,
               slots = [0 :: nat, 0, 0, 0]\<rparr>"
  let ?calls = "[Push [1 :: nat, 2, 3] 3 RING_B_FIXED, Pop [0, 0] 2 RING_B_FIXED]"
  let ?end = "\<lparr>prod_sp = 1, prod_size = 4, prod_mask = 3, prod_head = 1, prod_tail = 1,
          cons_sc = 1, cons_size = 4, cons_mask = 3, cons_head = 0, cons_tail = 0,
          slots = [3 :: nat, 0, 1, 2]\<rparr>"
  have calls: "list_all call_ok ?calls"
    by simp
  have "(4 :: u32) = 2 ^ 2"
    by simp
  then have ok: "ring_ok ?start"
    unfolding ring_ok_def by (intro conjI bexI [of _ 2]) simp_all
  have h: "ring_ok ?start \<and> prod_sp ?start \<noteq> 0 \<and> cons_sc ?start \<noteq> 0 \<and> [] = [] @ held ?start"
    using ok by (simp add: held_def)
  have i: "(2 :: nat) < 32 \<and> length (slots ?init) = 2 ^ 2
      \<and> (3 :: u32) AND RING_F_SP \<noteq> 0 \<and> (3 :: u32) AND RING_F_SC \<noteq> 0"
    by (simp add: RING_F_SP_def RING_F_SC_def)
  have ev: "run (?start, [], []) ?calls = Inr (?end, [1, 2, 3], [1, 2])"
    by code_simp
  note t = count_across_wrap [OF calls, of 2 ?init 3 ?start "[]" "[]"]
  from t [THEN conjunct2, rule_format, OF h]
  obtain r pushed popped where r: "run (?start, [], []) ?calls = Inr (r, pushed, popped)"
    "unat (ring_count r) = length pushed - length popped"
    "unat (ring_avail r) = unat (prod_size r) - 1 - (length pushed - length popped)"
    by (elim exE conjE)
  have eq: "r = ?end" "pushed = [1, 2, 3]" "popped = [1, 2]"
    using r(1) ev by simp_all
  have c: "unat (ring_count ?end) = 1" and a: "unat (ring_avail ?end) = 2"
    using r(2,3) unfolding eq by simp_all
  from t [THEN conjunct1, rule_format, OF i]
  have "\<exists>r pushed popped.
        run (ring_init ?init (2 ^ 2) 3, [], []) ?calls = Inr (r, pushed, popped)
        \<and> unat (ring_count r) = length pushed - length popped"
    by blast
  then show ?thesis
    using ev c a by (intro conjI)
qed

text \<open>
  C9. With \<open>n = 0\<close> a push on a ring whose producer head equals its tail, and a pop on a
  ring whose consumer head equals its tail, returns 0 and leaves the ring and the buffer
  as they were, on every path and with either behaviour. A push of any \<open>n\<close> on a full
  ring and a pop of any \<open>n\<close> on an empty ring return the same, so the return value 0
  does not tell the two apart.
\<close>

theorem zero_request:
  "(prod_head r = prod_tail r \<longrightarrow>
      (\<forall>push\<in>{ring_sp_push, ring_mp_push, ring_push}. push r objs 0 b = Inr (0, r)))
   \<and> (cons_head r = cons_tail r \<longrightarrow>
      (\<forall>pop\<in>{ring_sc_pop, ring_mc_pop, ring_pop}. pop r objs 0 b = Inr (0, r, objs)))
   \<and> (ring_ok r \<and> ring_full r = 1 \<and> unat n \<le> length objs \<longrightarrow>
      ring_push r objs n b = Inr (0, r) \<and> ring_push r objs n b = ring_push r objs 0 b)
   \<and> (ring_ok r \<and> ring_empty r = 1 \<and> unat n \<le> length objs \<longrightarrow>
      ring_pop r objs n b = Inr (0, r, objs) \<and> ring_pop r objs n b = ring_pop r objs 0 b)"
proof (intro conjI impI)
  assume q: "prod_head r = prod_tail r"
  then show "\<forall>push\<in>{ring_sp_push, ring_mp_push, ring_push}. push r objs 0 b = Inr (0, r)"
    by (simp add: ring_push_eq ring_mp_push_eq sp_push_zero)
next
  assume q: "cons_head r = cons_tail r"
  then show "\<forall>pop\<in>{ring_sc_pop, ring_mc_pop, ring_pop}. pop r objs 0 b = Inr (0, r, objs)"
    by (simp add: ring_pop_eq ring_mc_pop_eq sc_pop_zero)
next
  assume a: "ring_ok r \<and> ring_full r = 1 \<and> unat n \<le> length objs"
  then have ok: "ring_ok r" and buf: "unat n \<le> length objs"
    by simp_all
  have full: "ring_avail r = 0"
    using a by (simp add: ring_full_def ring_avail_def Let_def split: if_splits)
  define g where "g = (if n \<le> ring_avail r then n else if b = RING_B_FIXED then 0 else ring_avail r)"
  have g: "g = 0"
    by (simp add: g_def full)
  from sp_push_summary [OF ok buf, of b, folded g_def]
  have "ring_sp_push r objs n b = Inr (0, r)"
    unfolding g by auto
  then show push: "ring_push r objs n b = Inr (0, r)"
    by (simp add: push_is_sp [OF ok])
  have "prod_head r = prod_tail r"
    using ok by (simp add: ring_ok_def)
  then show "ring_push r objs n b = ring_push r objs 0 b"
    using push by (simp add: ring_push_eq sp_push_zero)
next
  assume a: "ring_ok r \<and> ring_empty r = 1 \<and> unat n \<le> length objs"
  then have ok: "ring_ok r" and buf: "unat n \<le> length objs"
    by simp_all
  have "cons_tail r = prod_tail r"
    using a by (simp add: ring_empty_def Let_def split: if_splits)
  then have empty: "ring_count r = 0"
    by (simp add: ring_count_def)
  define g where "g = (if n \<le> ring_count r then n else if b = RING_B_FIXED then 0 else ring_count r)"
  have g: "g = 0"
    by (simp add: g_def empty)
  from sc_pop_summary [OF ok buf, of b, folded g_def]
  have "ring_sc_pop r objs n b = Inr (0, r, objs)"
    unfolding g by auto
  then show pop: "ring_pop r objs n b = Inr (0, r, objs)"
    by (simp add: pop_is_sc [OF ok])
  have "cons_head r = cons_tail r"
    using ok by (simp add: ring_ok_def)
  then show "ring_pop r objs n b = ring_pop r objs 0 b"
    using pop by (simp add: ring_pop_eq sc_pop_zero)
qed

theorem zero_request_witness:
  "ring_push \<lparr>prod_sp = 0, prod_size = 4, prod_mask = 3, prod_head = 3, prod_tail = 3,
        cons_sc = 1, cons_size = 4, cons_mask = 3, cons_head = 0, cons_tail = 0,
        slots = [10 :: nat, 11, 12, 0]\<rparr> [13] 0 RING_B_VARIABLE
     = Inr (0, \<lparr>prod_sp = 0, prod_size = 4, prod_mask = 3, prod_head = 3, prod_tail = 3,
        cons_sc = 1, cons_size = 4, cons_mask = 3, cons_head = 0, cons_tail = 0,
        slots = [10 :: nat, 11, 12, 0]\<rparr>)
   \<and> ring_pop \<lparr>prod_sp = 0, prod_size = 4, prod_mask = 3, prod_head = 3, prod_tail = 3,
        cons_sc = 1, cons_size = 4, cons_mask = 3, cons_head = 0, cons_tail = 0,
        slots = [10 :: nat, 11, 12, 0]\<rparr> [13] 0 RING_B_FIXED
     = Inr (0, \<lparr>prod_sp = 0, prod_size = 4, prod_mask = 3, prod_head = 3, prod_tail = 3,
        cons_sc = 1, cons_size = 4, cons_mask = 3, cons_head = 0, cons_tail = 0,
        slots = [10 :: nat, 11, 12, 0]\<rparr>, [13])
   \<and> ring_full \<lparr>prod_sp = 0, prod_size = 4, prod_mask = 3, prod_head = 3, prod_tail = 3,
        cons_sc = 1, cons_size = 4, cons_mask = 3, cons_head = 0, cons_tail = 0,
        slots = [10 :: nat, 11, 12, 0]\<rparr> = 1
   \<and> ring_push \<lparr>prod_sp = 0, prod_size = 4, prod_mask = 3, prod_head = 3, prod_tail = 3,
        cons_sc = 1, cons_size = 4, cons_mask = 3, cons_head = 0, cons_tail = 0,
        slots = [10 :: nat, 11, 12, 0]\<rparr> [13] 1 RING_B_VARIABLE
     = Inr (0, \<lparr>prod_sp = 0, prod_size = 4, prod_mask = 3, prod_head = 3, prod_tail = 3,
        cons_sc = 1, cons_size = 4, cons_mask = 3, cons_head = 0, cons_tail = 0,
        slots = [10 :: nat, 11, 12, 0]\<rparr>)
   \<and> ring_empty \<lparr>prod_sp = 0, prod_size = 4, prod_mask = 3, prod_head = 7, prod_tail = 7,
        cons_sc = 1, cons_size = 4, cons_mask = 3, cons_head = 7, cons_tail = 7,
        slots = [10 :: nat, 11, 12, 0]\<rparr> = 1
   \<and> ring_pop \<lparr>prod_sp = 0, prod_size = 4, prod_mask = 3, prod_head = 7, prod_tail = 7,
        cons_sc = 1, cons_size = 4, cons_mask = 3, cons_head = 7, cons_tail = 7,
        slots = [10 :: nat, 11, 12, 0]\<rparr> [13] 1 RING_B_FIXED
     = Inr (0, \<lparr>prod_sp = 0, prod_size = 4, prod_mask = 3, prod_head = 7, prod_tail = 7,
        cons_sc = 1, cons_size = 4, cons_mask = 3, cons_head = 7, cons_tail = 7,
        slots = [10 :: nat, 11, 12, 0]\<rparr>, [13])"
proof -
  let ?e = "\<lparr>prod_sp = 0, prod_size = 4, prod_mask = 3, prod_head = 7, prod_tail = 7,
        cons_sc = 1, cons_size = 4, cons_mask = 3, cons_head = 7, cons_tail = 7,
        slots = [10 :: nat, 11, 12, 0]\<rparr>"
  let ?r = "\<lparr>prod_sp = 0, prod_size = 4, prod_mask = 3, prod_head = 3, prod_tail = 3,
        cons_sc = 1, cons_size = 4, cons_mask = 3, cons_head = 0, cons_tail = 0,
        slots = [10 :: nat, 11, 12, 0]\<rparr>"
  have "(4 :: u32) = 2 ^ 2"
    by simp
  then have ok: "ring_ok ?r"
    unfolding ring_ok_def by (intro conjI bexI [of _ 2]) simp_all
  have full: "ring_full ?r = 1"
    by (simp add: ring_full_def)
  have p: "prod_head ?r = prod_tail ?r" and c: "cons_head ?r = cons_tail ?r"
    by simp_all
  have buf: "unat (1 :: u32) \<le> length [13 :: nat]"
    by simp
  note t1 = zero_request [of ?r "[13]" RING_B_VARIABLE 1]
  note t2 = zero_request [of ?r "[13]" RING_B_FIXED 1]
  have "ring_push ?r [13] 0 RING_B_VARIABLE = Inr (0, ?r)"
    using t1 [THEN conjunct1, rule_format, OF p, of ring_push] by simp
  moreover have "ring_pop ?r [13] 0 RING_B_FIXED = Inr (0, ?r, [13])"
    using t2 [THEN conjunct2, THEN conjunct1, rule_format, OF c, of ring_pop] by simp
  moreover have "ring_push ?r [13] 1 RING_B_VARIABLE = Inr (0, ?r)"
    using t1 [THEN conjunct2, THEN conjunct2, THEN conjunct1, rule_format, OF conjI [OF ok conjI [OF full buf]]]
    by simp
  moreover have "ring_pop ?e [13] 1 RING_B_FIXED = Inr (0, ?e, [13])"
  proof -
    have "(4 :: u32) = 2 ^ 2"
      by simp
    then have e_ok: "ring_ok ?e"
      unfolding ring_ok_def by (intro conjI bexI [of _ 2]) simp_all
    have empty: "ring_empty ?e = 1"
      by (simp add: ring_empty_def)
    show ?thesis
      using zero_request [of ?e "[13]" RING_B_FIXED 1, THEN conjunct2, THEN conjunct2,
          THEN conjunct2, rule_format, OF conjI [OF e_ok conjI [OF empty buf]]]
      by simp
  qed
  moreover have "ring_empty ?e = 1"
    by (simp add: ring_empty_def)
  ultimately show ?thesis
    using full by (intro conjI)
qed

text \<open>
  C10. \<^verbatim>\<open>ring_init\<close> leaves \<open>prod.head = prod.tail\<close> and \<open>cons.head = cons.tail\<close>; a push
  or pop that starts with both equations and returns leaves both; and every run of calls
  from \<^verbatim>\<open>ring_init\<close> returns in a state with both.
\<close>

theorem heads_equal_tails:
  "(prod_head (ring_init r0 count flags) = prod_tail (ring_init r0 count flags)
      \<and> cons_head (ring_init r0 count flags) = cons_tail (ring_init r0 count flags))
   \<and> (prod_head r = prod_tail r \<and> cons_head r = cons_tail r
        \<and> ring_push r objs n b = Inr (ret, r')
      \<longrightarrow> prod_head r' = prod_tail r' \<and> cons_head r' = cons_tail r')
   \<and> (prod_head r = prod_tail r \<and> cons_head r = cons_tail r
        \<and> ring_pop r objs n b = Inr (ret, r', objs')
      \<longrightarrow> prod_head r' = prod_tail r' \<and> cons_head r' = cons_tail r')
   \<and> (k < 32 \<and> length (slots r0) = 2 ^ k \<and> list_all call_ok calls
      \<longrightarrow> (\<exists>r pushed popped.
            run (ring_init r0 (2 ^ k) flags, [], []) calls = Inr (r, pushed, popped)
            \<and> prod_head r = prod_tail r \<and> cons_head r = cons_tail r))"
proof (intro conjI impI)
  show "prod_head (ring_init r0 count flags) = prod_tail (ring_init r0 count flags)"
    and "cons_head (ring_init r0 count flags) = cons_tail (ring_init r0 count flags)"
    by (simp_all add: ring_init_def)
next
  assume a: "prod_head r = prod_tail r \<and> cons_head r = cons_tail r
      \<and> ring_push r objs n b = Inr (ret, r')"
  then have "ring_sp_push r objs n b = Inr (ret, r')"
    using ring_push_eq [of r objs n b] by auto
  from sp_push_heads [OF this] show "prod_head r' = prod_tail r'" and "cons_head r' = cons_tail r'"
    using a by auto
next
  assume a: "prod_head r = prod_tail r \<and> cons_head r = cons_tail r
      \<and> ring_pop r objs n b = Inr (ret, r', objs')"
  then have "ring_sc_pop r objs n b = Inr (ret, r', objs')"
    using ring_pop_eq [of r objs n b] by auto
  from sc_pop_heads [OF this] show "prod_head r' = prod_tail r'" and "cons_head r' = cons_tail r'"
    using a by auto
next
  assume a: "k < 32 \<and> length (slots r0) = 2 ^ k \<and> list_all call_ok calls"
  then have ok: "ring_ok (ring_init r0 (2 ^ k) flags)"
    by (simp add: ring_init_ok)
  have log: "[] = [] @ held (ring_init r0 (2 ^ k) flags)"
    by (simp add: held_ring_init)
  from a have calls: "list_all call_ok calls"
    by simp
  from run_inv [OF ok calls log]
  obtain r pushed popped where
    "run (ring_init r0 (2 ^ k) flags, [], []) calls = Inr (r, pushed, popped)" "ring_ok r"
    by (elim exE conjE)
  then show "\<exists>r pushed popped.
      run (ring_init r0 (2 ^ k) flags, [], []) calls = Inr (r, pushed, popped)
      \<and> prod_head r = prod_tail r \<and> cons_head r = cons_tail r"
    by (intro exI [of _ r] exI [of _ pushed] exI [of _ popped]) (simp add: ring_ok_def)
qed


theorem heads_equal_tails_witness:
  "(\<exists>r pushed popped.
      run (ring_init \<lparr>prod_sp = 7, prod_size = 7, prod_mask = 7, prod_head = 7, prod_tail = 7,
             cons_sc = 7, cons_size = 7, cons_mask = 7, cons_head = 7, cons_tail = 7,
             slots = [0 :: nat, 0, 0, 0]\<rparr> (2 ^ 2) 0, [], [])
        [Push [10, 11, 12] 3 RING_B_FIXED, Pop [0, 0] 2 RING_B_VARIABLE,
         Push [13, 14] 2 RING_B_FIXED]
      = Inr (r, pushed, popped)
      \<and> prod_head r = prod_tail r \<and> cons_head r = cons_tail r)
   \<and> ring_push \<lparr>prod_sp = 1, prod_size = 4, prod_mask = 3, prod_head = 3, prod_tail = 3,
        cons_sc = 0, cons_size = 4, cons_mask = 3, cons_head = 2, cons_tail = 2,
        slots = [10 :: nat, 11, 12, 0]\<rparr> [13, 14] 2 RING_B_FIXED
      = Inr (2, \<lparr>prod_sp = 1, prod_size = 4, prod_mask = 3, prod_head = 5, prod_tail = 5,
        cons_sc = 0, cons_size = 4, cons_mask = 3, cons_head = 2, cons_tail = 2,
        slots = [14, 11, 12, 13]\<rparr>)
   \<and> ring_pop \<lparr>prod_sp = 1, prod_size = 4, prod_mask = 3, prod_head = 3, prod_tail = 3,
        cons_sc = 0, cons_size = 4, cons_mask = 3, cons_head = 2, cons_tail = 2,
        slots = [10 :: nat, 11, 12, 0]\<rparr> [0, 0] 2 RING_B_VARIABLE
      = Inr (1, \<lparr>prod_sp = 1, prod_size = 4, prod_mask = 3, prod_head = 3, prod_tail = 3,
        cons_sc = 0, cons_size = 4, cons_mask = 3, cons_head = 3, cons_tail = 3,
        slots = [10 :: nat, 11, 12, 0]\<rparr>, [12, 0])"
proof -
  let ?init = "\<lparr>prod_sp = 7, prod_size = 7, prod_mask = 7, prod_head = 7, prod_tail = 7,
             cons_sc = 7, cons_size = 7, cons_mask = 7, cons_head = 7, cons_tail = 7,
             slots = [0 :: nat, 0, 0, 0]\<rparr>"
  let ?calls = "[Push [10 :: nat, 11, 12] 3 RING_B_FIXED, Pop [0, 0] 2 RING_B_VARIABLE,
         Push [13, 14] 2 RING_B_FIXED]"
  let ?r = "\<lparr>prod_sp = 1, prod_size = 4, prod_mask = 3, prod_head = 3, prod_tail = 3,
        cons_sc = 0, cons_size = 4, cons_mask = 3, cons_head = 2, cons_tail = 2,
        slots = [10 :: nat, 11, 12, 0]\<rparr>"
  let ?r1 = "\<lparr>prod_sp = 1, prod_size = 4, prod_mask = 3, prod_head = 5, prod_tail = 5,
        cons_sc = 0, cons_size = 4, cons_mask = 3, cons_head = 2, cons_tail = 2,
        slots = [14 :: nat, 11, 12, 13]\<rparr>"
  let ?r2 = "\<lparr>prod_sp = 1, prod_size = 4, prod_mask = 3, prod_head = 3, prod_tail = 3,
        cons_sc = 0, cons_size = 4, cons_mask = 3, cons_head = 3, cons_tail = 3,
        slots = [10 :: nat, 11, 12, 0]\<rparr>"
  have h: "(2 :: nat) < 32 \<and> length (slots ?init) = 2 ^ 2 \<and> list_all call_ok ?calls"
    by simp
  have push: "ring_push ?r [13, 14] 2 RING_B_FIXED = Inr (2, ?r1)"
    by code_simp
  have pop: "ring_pop ?r [0, 0] 2 RING_B_VARIABLE = Inr (1, ?r2, [12, 0])"
    by code_simp
  have q: "prod_head ?r = prod_tail ?r \<and> cons_head ?r = cons_tail ?r"
    by simp
  note t = heads_equal_tails [of ?init _ 0 ?r "[13, 14]" 2 RING_B_FIXED 2 ?r1 _ 2 ?calls]
  note u = heads_equal_tails [of _ _ _ ?r "[0, 0]" 2 RING_B_VARIABLE 1 ?r2 "[12, 0]"]
  have "prod_head ?r1 = prod_tail ?r1 \<and> cons_head ?r1 = cons_tail ?r1"
    using t [THEN conjunct2, THEN conjunct1] q push by blast
  moreover have "prod_head ?r2 = prod_tail ?r2 \<and> cons_head ?r2 = cons_tail ?r2"
    using u [THEN conjunct2, THEN conjunct2, THEN conjunct1] q pop by blast
  moreover have "\<exists>r pushed popped.
      run (ring_init ?init (2 ^ 2) 0, [], []) ?calls = Inr (r, pushed, popped)
      \<and> prod_head r = prod_tail r \<and> cons_head r = cons_tail r"
    using t [THEN conjunct2, THEN conjunct2, THEN conjunct2] h by (rule mp)
  ultimately show ?thesis
    using push pop by (intro conjI)
qed

end
